theory Spec2Isabelle
  imports Main "HOL-Library.Word"
begin

chapter \<open>The model\<close>

section \<open>Services and filters (service.go)\<close>

text \<open>
  A Go \<^verbatim>\<open>Service\<close> is a function value \<^verbatim>\<open>func(req Request) Response\<close>. Go
  functions may have effects, and the order in which the stages of a pipeline run is
  only observable through them, so a service is embedded as a state-passing function:
  it takes the request and the current effect state and returns the response with the
  new effect state. A \<^verbatim>\<open>Filter\<close> is \<^verbatim>\<open>func(Request, Service) Response\<close>.
\<close>

type_synonym ('q, 'r, 'e) service = "'q \<Rightarrow> 'e \<Rightarrow> 'r \<times> 'e"

type_synonym ('q, 'r, 'e) filter = "'q \<Rightarrow> ('q, 'r, 'e) service \<Rightarrow> 'e \<Rightarrow> 'r \<times> 'e"

text \<open>
  \<^verbatim>\<open>func (svc Service) Filter(f Filter) Service {
      return func(req Request) Response { return f(req, svc) } }\<close>
\<close>

definition Filter :: "('q, 'r, 'e) service \<Rightarrow> ('q, 'r, 'e) filter \<Rightarrow> ('q, 'r, 'e) service" where
  "Filter svc f = (\<lambda>req. f req svc)"

text \<open>
  A stage with observable pre-processing and post-processing: it performs \<open>pre\<close> on the
  effect state, hands the request (rewritten by \<open>qf\<close>) to the downstream service, then
  performs \<open>post\<close> and returns the response rewritten by \<open>rf\<close>.
\<close>

definition stage :: "('e \<Rightarrow> 'e) \<Rightarrow> ('q \<Rightarrow> 'q) \<Rightarrow> ('e \<Rightarrow> 'e) \<Rightarrow> ('r \<Rightarrow> 'r) \<Rightarrow> ('q, 'r, 'e) filter" where
  "stage pre qf post rf = (\<lambda>req svc \<sigma>.
     case svc (qf req) (pre \<sigma>) of (rsp, \<sigma>') \<Rightarrow> (rf rsp, post \<sigma>'))"

text \<open>Stages and a terminal handler that record their steps in a log of events.\<close>

definition logging_stage :: "'x \<Rightarrow> 'x \<Rightarrow> ('q, 'r, 'x list) filter" where
  "logging_stage a b = stage (\<lambda>\<sigma>. \<sigma> @ [a]) (\<lambda>q. q) (\<lambda>\<sigma>. \<sigma> @ [b]) (\<lambda>r. r)"

definition logging_handler :: "'x \<Rightarrow> ('q \<Rightarrow> 'r) \<Rightarrow> ('q, 'r, 'x list) service" where
  "logging_handler t h = (\<lambda>req \<sigma>. (h req, \<sigma> @ [t]))"

section \<open>Formatting and parsing integers (fmt.Sprintf with %d, strconv.Atoi)\<close>

text \<open>
  Go's \<^verbatim>\<open>int\<close> is 64 bits wide on the platforms the library targets. \<open>fmt_d\<close> is the
  \<^verbatim>\<open>%d\<close> verb: the decimal digits of the value, with a leading minus sign when it is
  negative.
\<close>

definition digit_char :: "nat \<Rightarrow> char" where
  "digit_char d = ''0123456789'' ! d"

function nat_dec :: "nat \<Rightarrow> string" where
  "nat_dec n = (if n < 10 then [digit_char n] else nat_dec (n div 10) @ [digit_char (n mod 10)])"
  by pat_completeness auto
termination
  by (relation "measure (\<lambda>n. n)") auto

declare nat_dec.simps [simp del]

definition fmt_d :: "int \<Rightarrow> string" where
  "fmt_d i = (if i < 0 then CHR ''-'' # nat_dec (nat (- i)) else nat_dec (nat i))"

text \<open>
  \<^verbatim>\<open>strconv.Atoi\<close>: an optional sign, then one or more decimal digits and nothing else;
  a value outside the 64-bit range is an error. \<open>None\<close> is the error result.
\<close>

definition is_digit :: "char \<Rightarrow> bool" where
  "is_digit c = (48 \<le> (of_char c :: nat) \<and> (of_char c :: nat) \<le> 57)"

definition digit_val :: "char \<Rightarrow> nat" where
  "digit_val c = of_char c - 48"

definition dec_val :: "string \<Rightarrow> nat" where
  "dec_val ds = foldl (\<lambda>n ch. n * 10 + digit_val ch) 0 ds"

definition Atoi :: "string \<Rightarrow> int option" where
  "Atoi s = (case s of [] \<Rightarrow> None | c # cs \<Rightarrow>
     (let ds = (if c = CHR ''-'' \<or> c = CHR ''+'' then cs else s) in
      if ds \<noteq> [] \<and> list_all is_digit ds
      then (let n = (if c = CHR ''-'' then - int (dec_val ds) else int (dec_val ds)) in
            if - (2 ^ 63) \<le> n \<and> n \<le> 2 ^ 63 - 1 then Some n else None)
      else None))"

section \<open>The HSTS filter (hsts.go)\<close>

text \<open>
  The \<^verbatim>\<open>Response\<close> type is declared outside the files at hand. The filter reaches the
  field \<^verbatim>\<open>Header\<close> through it: the header of the \<^verbatim>\<open>*http.Response\<close> it embeds, a Go map
  from canonical header names to lists of values. The embedded pointer may be nil and so
  may the map; \<open>None\<close> is nil in both places. Every other part of a response is the
  extension of the two records.
\<close>

type_synonym header = "string \<rightharpoonup> string list"

record http_Response =
  Header :: "header option"

record 'x Response =
  Response_ptr :: "'x http_Response_scheme option"

text \<open>The two run-time panics of the filter: reading through a nil pointer, writing to a nil map.\<close>

datatype panic = NilPointerDereference | AssignmentToNilMap

text \<open>
  \<^verbatim>\<open>Header.Set(key, value)\<close> replaces the values stored under the canonical form of
  \<open>key\<close> by the single \<open>value\<close>. The canonical form of a name made of header token
  bytes has an upper-case letter first and after every hyphen and lower-case letters
  elsewhere; any other name is left as it is. On a nil map the assignment panics.
\<close>

definition is_lower :: "char \<Rightarrow> bool" where
  "is_lower c = (97 \<le> (of_char c :: nat) \<and> (of_char c :: nat) \<le> 122)"

definition is_upper :: "char \<Rightarrow> bool" where
  "is_upper c = (65 \<le> (of_char c :: nat) \<and> (of_char c :: nat) \<le> 90)"

definition to_upper :: "char \<Rightarrow> char" where
  "to_upper c = char_of ((of_char c :: nat) - 32)"

definition to_lower :: "char \<Rightarrow> char" where
  "to_lower c = char_of ((of_char c :: nat) + 32)"

definition validHeaderFieldByte :: "char \<Rightarrow> bool" where
  "validHeaderFieldByte c = (is_lower c \<or> is_upper c \<or> is_digit c
     \<or> c \<in> set ''!#$%&*+-.^_|~'' \<or> c = CHR 0x27 \<or> c = CHR 0x60)"

fun canon :: "bool \<Rightarrow> string \<Rightarrow> string" where
  "canon upper [] = []"
| "canon upper (c # cs) =
     (let c' = (if upper \<and> is_lower c then to_upper c
                else if \<not> upper \<and> is_upper c then to_lower c else c)
      in c' # canon (c' = CHR ''-'') cs)"

definition CanonicalMIMEHeaderKey :: "string \<Rightarrow> string" where
  "CanonicalMIMEHeaderKey k = (if list_all validHeaderFieldByte k then canon True k else k)"

definition Header_Set :: "header option \<Rightarrow> string \<Rightarrow> string \<Rightarrow> panic + header" where
  "Header_Set hdr k v = (case hdr of
     None \<Rightarrow> Inl AssignmentToNilMap
   | Some h \<Rightarrow> Inr (h(CanonicalMIMEHeaderKey k \<mapsto> [v])))"

text \<open>
  \<^verbatim>\<open>func HSTSFilter(maxAge int) func(request Request, service Service) Response {
      return func(request Request, service Service) Response {
          response := service(request)
          response.Header.Set("Strict-Transport-Security",
              fmt.Sprintf("max-age=%d; includeSubDomains", maxAge))
          return response } }\<close>
  A service, being a Go function, may panic instead of returning: the result of a service
  is a panic or a response. A panic of the downstream service passes through the filter.
\<close>

definition HSTSDefaultMaxAge :: "64 word" where
  "HSTSDefaultMaxAge = 63072000"

definition HSTSFilter :: "64 word \<Rightarrow> ('q, panic + ('x, 'a) Response_scheme, 'e) filter" where
  "HSTSFilter maxAge = (\<lambda>request service \<sigma>.
     case service request \<sigma> of
       (Inl p, \<sigma>') \<Rightarrow> (Inl p, \<sigma>')
     | (Inr response, \<sigma>') \<Rightarrow>
         (case Response_ptr response of
            None \<Rightarrow> (Inl NilPointerDereference, \<sigma>')
          | Some r \<Rightarrow>
              (case Header_Set (Header r) ''Strict-Transport-Security''
                      (''max-age='' @ fmt_d (sint maxAge) @ ''; includeSubDomains'') of
                 Inl p \<Rightarrow> (Inl p, \<sigma>')
               | Inr h \<Rightarrow>
                   (Inr (response\<lparr>Response_ptr := Some (r\<lparr>Header := Some h\<rparr>)\<rparr>), \<sigma>'))))"

section \<open>Choosing the address to bind (server.go: Listen, ListenTLS, ListenUnix, ListenUnixTLS)\<close>

text \<open>
  The environment is a map from variable names to values; \<^verbatim>\<open>os.Getenv\<close> returns the
  empty string for a variable that is not set.
\<close>

type_synonym environ = "string \<rightharpoonup> string"

definition Getenv :: "environ \<Rightarrow> string \<Rightarrow> string" where
  "Getenv env k = (case env k of None \<Rightarrow> [] | Some v \<Rightarrow> v)"

text \<open>
  The address \<^verbatim>\<open>Listen\<close> and \<^verbatim>\<open>ListenTLS\<close> hand to \<^verbatim>\<open>net.ResolveTCPAddr\<close>:
  \<^verbatim>\<open>if addr == "" {
      if _addr := os.Getenv("LISTEN_ADDR"); _addr != "" { addr = _addr
      } else if port, err := strconv.Atoi(os.Getenv("PORT")); err == nil && port >= 0 {
          addr = fmt.Sprintf(":%d", port)
      } else { addr = ":0" } }\<close>
\<close>

definition Listen_addr :: "environ \<Rightarrow> string \<Rightarrow> string" where
  "Listen_addr env addr =
     (if addr = [] then
        (if Getenv env ''LISTEN_ADDR'' \<noteq> [] then Getenv env ''LISTEN_ADDR''
         else (case Atoi (Getenv env ''PORT'') of
                 Some port \<Rightarrow> if port \<ge> 0 then '':'' @ fmt_d port else '':0''
               | None \<Rightarrow> '':0''))
      else addr)"

text \<open>
  The host of an address \<^verbatim>\<open>host:port\<close> is what stands before its last colon
  (\<^verbatim>\<open>net.SplitHostPort\<close>). The \<^verbatim>\<open>net\<close> package binds an address with an empty host
  on every interface of the machine; only a loopback host (such as \<^verbatim>\<open>127.0.0.1\<close> or
  \<^verbatim>\<open>localhost\<close>) restricts the listener to the loopback interface.
\<close>

definition addr_host :: "string \<Rightarrow> string" where
  "addr_host a = rev (drop 1 (dropWhile (\<lambda>c. c \<noteq> CHR '':'') (rev a)))"

text \<open>
  The path \<^verbatim>\<open>ListenUnix\<close> and \<^verbatim>\<open>ListenUnixTLS\<close> bind; \<open>TempDir\<close> is the result of
  \<^verbatim>\<open>os.TempDir()\<close>, the name of the directory for temporary files:
  \<^verbatim>\<open>if path == "" {
      if _addr := os.Getenv("LISTEN_PATH"); _addr != "" { path = _addr
      } else { path = os.TempDir() ... } }\<close>
\<close>

definition ListenUnix_path :: "environ \<Rightarrow> string \<Rightarrow> string \<Rightarrow> string" where
  "ListenUnix_path env TempDir path =
     (if path = [] then
        (if Getenv env ''LISTEN_PATH'' \<noteq> [] then Getenv env ''LISTEN_PATH'' else TempDir)
      else path)"

text \<open>A path that lies under a directory properly extends the directory's name.\<close>

definition path_under :: "string \<Rightarrow> string \<Rightarrow> bool" where
  "path_under dir p = (length dir < length p \<and> take (length dir) p = dir)"

section \<open>The TLS configuration (server.go: ServeTLS)\<close>

text \<open>The constants of \<^verbatim>\<open>crypto/tls\<close> that the default configuration names.\<close>

definition VersionTLS12 :: "16 word" where "VersionTLS12 = 0x0303"
definition CurveP256 :: "16 word" where "CurveP256 = 23"
definition CurveP384 :: "16 word" where "CurveP384 = 24"
definition CurveP521 :: "16 word" where "CurveP521 = 25"
definition TLS_RSA_WITH_AES_256_CBC_SHA :: "16 word" where "TLS_RSA_WITH_AES_256_CBC_SHA = 0x0035"
definition TLS_RSA_WITH_AES_256_GCM_SHA384 :: "16 word" where "TLS_RSA_WITH_AES_256_GCM_SHA384 = 0x009d"
definition TLS_ECDHE_RSA_WITH_AES_256_CBC_SHA :: "16 word" where "TLS_ECDHE_RSA_WITH_AES_256_CBC_SHA = 0xc014"
definition TLS_ECDHE_RSA_WITH_AES_256_GCM_SHA384 :: "16 word" where "TLS_ECDHE_RSA_WITH_AES_256_GCM_SHA384 = 0xc030"

text \<open>The fields of \<^verbatim>\<open>tls.Config\<close> that the code sets; a nil pointer is \<open>None\<close>.\<close>

record tls_Config =
  MinVersion :: "16 word"
  CurvePreferences :: "16 word list"
  PreferServerCipherSuites :: bool
  CipherSuites :: "16 word list"

text \<open>
  The \<^verbatim>\<open>http.Server\<close> that \<^verbatim>\<open>ServeTLS\<close> builds. A Go map that is nil differs from
  one that is empty, so \<open>TLSNextProto\<close> is an optional map.
\<close>

record ('h, 'p) http_Server =
  Handler :: 'h
  MaxHeaderBytes :: int
  TLSConfig :: "tls_Config option"
  TLSNextProto :: "(string \<rightharpoonup> 'p) option"

definition DefaultMaxHeaderBytes :: int where
  "DefaultMaxHeaderBytes = 2 ^ 20"

text \<open>
  \<^verbatim>\<open>if cfg == nil { cfg = &tls.Config{ MinVersion: tls.VersionTLS12, ... } }\<close>
\<close>

definition ServeTLS_cfg :: "tls_Config option \<Rightarrow> tls_Config" where
  "ServeTLS_cfg cfg = (case cfg of
     None \<Rightarrow> \<lparr>MinVersion = VersionTLS12,
              CurvePreferences = [CurveP521, CurveP384, CurveP256],
              PreferServerCipherSuites = True,
              CipherSuites = [TLS_ECDHE_RSA_WITH_AES_256_GCM_SHA384,
                              TLS_ECDHE_RSA_WITH_AES_256_CBC_SHA,
                              TLS_RSA_WITH_AES_256_GCM_SHA384,
                              TLS_RSA_WITH_AES_256_CBC_SHA]\<rparr>
   | Some c \<Rightarrow> c)"

text \<open>
  \<^verbatim>\<open>s.srv = &http.Server{ Handler: HttpHandler(svc),
      MaxHeaderBytes: http.DefaultMaxHeaderBytes, TLSConfig: cfg,
      TLSNextProto: make(map[string]func(*http.Server, *tls.Conn, http.Handler), 0) }\<close>
  The handler \<open>h\<close> is \<^verbatim>\<open>HttpHandler(svc)\<close> for the filtered service.
\<close>

definition ServeTLS_srv :: "'h \<Rightarrow> tls_Config option \<Rightarrow> ('h, 'p) http_Server" where
  "ServeTLS_srv h cfg = \<lparr>Handler = h, MaxHeaderBytes = DefaultMaxHeaderBytes,
     TLSConfig = Some (ServeTLS_cfg cfg), TLSNextProto = Some Map.empty\<rparr>"

section \<open>The shutdown coordinator (server.go: Server, Stop, addShutdownFunc, Serve)\<close>

subsection \<open>Values\<close>

text \<open>
  Go errors are values; \<open>ErrServerClosed\<close> is the sentinel \<^verbatim>\<open>http.ErrServerClosed\<close>.
  A \<^verbatim>\<open>context.Context\<close> has an identity and is either still open or already done
  (cancelled or past its deadline) when it is handed over.
\<close>

datatype error = ErrServerClosed | OtherError nat

datatype ctx = Ctx (ctx_id: nat) (ctx_done: bool)

text \<open>
  \<^verbatim>\<open>ctx, cancel := context.WithCancel(context.Background()); cancel()\<close>
\<close>

definition canceled_ctx :: ctx where
  "canceled_ctx = Ctx 0 True"

text \<open>The severities of the \<^verbatim>\<open>slog\<close> package, in its order.\<close>

datatype severity = TraceSeverity | DebugSeverity | InfoSeverity | WarnSeverity
  | ErrorSeverity | CriticalSeverity

fun severity_rank :: "severity \<Rightarrow> nat" where
  "severity_rank TraceSeverity = 1"
| "severity_rank DebugSeverity = 2"
| "severity_rank InfoSeverity = 3"
| "severity_rank WarnSeverity = 4"
| "severity_rank ErrorSeverity = 5"
| "severity_rank CriticalSeverity = 6"

text \<open>What the server does that can be observed from outside, in the order it happens.\<close>

datatype event =
    Closed
  | SrvShutdown ctx
  | SrvClose
  | Log severity "error option"
  | Invoke nat ctx
  | Panic error

text \<open>A call of a function value either returns or panics.\<close>

datatype outcome = Returns | Panics

subsection \<open>The drain goroutine of Stop\<close>

text \<open>
  \<^verbatim>\<open>if err := s.srv.Shutdown(ctx); err != nil {
      slog.Debug(ctx, "Graceful shutdown failed; forcibly closing connections")
      if err := s.srv.Close(); err != nil {
          slog.Critical(ctx, "Forceful shutdown failed, exiting: %v", err)
          panic(err) } }\<close>
  \<open>Shutdown\<close> and \<open>Close\<close> are the results of the two calls on the \<^verbatim>\<open>http.Server\<close>.
\<close>

definition drain_body :: "(ctx \<Rightarrow> error option) \<Rightarrow> error option \<Rightarrow> ctx \<Rightarrow> event list \<times> outcome" where
  "drain_body Shutdown Close c =
     (case Shutdown c of
        None \<Rightarrow> ([SrvShutdown c], Returns)
      | Some err \<Rightarrow>
          (case Close of
             None \<Rightarrow> ([SrvShutdown c, Log DebugSeverity None, SrvClose], Returns)
           | Some err' \<Rightarrow>
               ([SrvShutdown c, Log DebugSeverity None, SrvClose,
                 Log CriticalSeverity (Some err'), Panic err'], Panics)))"

subsection \<open>Goroutines and the state of a server\<close>

text \<open>
  The goroutines that call into a server, numbered: each one calls \<^verbatim>\<open>Stop(ctx)\<close>, calls
  \<^verbatim>\<open>addShutdownFunc(f)\<close>, is the goroutine that \<^verbatim>\<open>Serve\<close> started (whose
  \<^verbatim>\<open>s.srv.Serve(l)\<close> has returned the given error), or does nothing. Registered functions
  are named by numbers.
\<close>

datatype call = StopCall ctx | AddCall nat | ServeLoop "error option" | NoCall

text \<open>
  Where a calling goroutine stands: before its call (\<open>Start\<close>); for the serve goroutine,
  before the \<^verbatim>\<open>Lock\<close> of the \<^verbatim>\<open>Stop\<close> it calls (\<open>StopLock\<close>); holding the mutex, before
  \<^verbatim>\<open>shutdownOnce.Do\<close> (\<open>DoOnce\<close>); inside the function given to \<^verbatim>\<open>Do\<close>, before
  \<^verbatim>\<open>close(s.shuttingDown)\<close> (\<open>CloseChan\<close>), before the \<^verbatim>\<open>go\<close> statement of the drain
  (\<open>GoDrain\<close>), in the loop over \<^verbatim>\<open>s.shutdownFuncs\<close> with the functions still to launch
  (\<open>GoFuncs\<close>), at \<^verbatim>\<open>wg.Wait()\<close> (\<open>Wait\<close>); in \<^verbatim>\<open>addShutdownFunc\<close> before the
  \<^verbatim>\<open>append\<close> (\<open>Append\<close>); before the deferred \<^verbatim>\<open>Unlock\<close> (\<open>AtUnlock\<close>); returned.
\<close>

datatype pc = Start | StopLock | DoOnce | CloseChan | GoDrain | GoFuncs "nat list" | Wait
  | Append | AtUnlock | Returned

text \<open>
  The goroutines that \<^verbatim>\<open>Stop\<close> starts: the drain, and one per registered function, each
  with the context it was given. A goroutine is running, has returned, or has panicked
  and run its deferred \<^verbatim>\<open>wg.Done()\<close> (an unrecovered panic then ends the process).
\<close>

datatype branch = Drain ctx | Part nat ctx

datatype status = Running | Unwinding | Finished

text \<open>What lies outside the server: the callers, the \<^verbatim>\<open>http.Server\<close> and the registered functions.\<close>

record world =
  prog :: "nat \<Rightarrow> call"
  srv_Shutdown :: "ctx \<Rightarrow> error option"
  srv_Close :: "error option"
  fn_run :: "nat \<Rightarrow> ctx \<Rightarrow> outcome"

text \<open>
  The fields of \<^verbatim>\<open>Server\<close> that change (\<open>mutex\<close> is \<^verbatim>\<open>shutdownFuncsM\<close> with the goroutine
  holding it, \<open>once_done\<close> is \<^verbatim>\<open>shutdownOnce\<close>, \<open>chan_closed\<close> is \<^verbatim>\<open>shuttingDown\<close>), the
  \<^verbatim>\<open>WaitGroup\<close> counter of \<^verbatim>\<open>Stop\<close>, the goroutines it started, where every caller
  stands, the callers that have entered the function given to \<^verbatim>\<open>Do\<close> (\<open>execs\<close>), the
  events so far, and whether the process has been ended by a panic.
\<close>

record state =
  mutex :: "nat option"
  once_done :: bool
  chan_closed :: bool
  shutdownFuncs :: "nat list"
  wg :: nat
  branches :: "(branch \<times> status) list"
  pcs :: "nat \<Rightarrow> pc"
  execs :: "nat list"
  trace :: "event list"
  crashed :: bool

text \<open>\<^verbatim>\<open>s := &Server{l: l, shuttingDown: make(chan struct{})}\<close>\<close>

definition new_Server :: state where
  "new_Server = \<lparr>mutex = None, once_done = False, chan_closed = False, shutdownFuncs = [],
     wg = 0, branches = [], pcs = (\<lambda>_. Start), execs = [], trace = [], crashed = False\<rparr>"

text \<open>\<^verbatim>\<open>func (s *Server) Done() <-chan struct{} { return s.shuttingDown }\<close>: whether the channel is closed.\<close>

definition Done :: "state \<Rightarrow> bool" where
  "Done s = chan_closed s"

subsection \<open>Steps\<close>

definition goto :: "nat \<Rightarrow> pc \<Rightarrow> state \<Rightarrow> state" where
  "goto t p s = s\<lparr>pcs := (pcs s)(t := p)\<rparr>"

text \<open>\<^verbatim>\<open>Lock\<close> goes on only when the mutex is free; otherwise the goroutine stays where it is.\<close>

definition lock :: "nat \<Rightarrow> pc \<Rightarrow> state \<Rightarrow> state" where
  "lock t p s = (case mutex s of None \<Rightarrow> goto t p (s\<lparr>mutex := Some t\<rparr>) | Some _ \<Rightarrow> s)"

text \<open>\<^verbatim>\<open>Unlock\<close> of a mutex that is not locked is a fatal error.\<close>

definition unlock :: "nat \<Rightarrow> pc \<Rightarrow> state \<Rightarrow> state" where
  "unlock t p s = (case mutex s of None \<Rightarrow> s\<lparr>crashed := True\<rparr>
     | Some _ \<Rightarrow> goto t p (s\<lparr>mutex := None\<rparr>))"

text \<open>\<^verbatim>\<open>err != nil && err != http.ErrServerClosed\<close>\<close>

definition fatal_serve_error :: "error option \<Rightarrow> bool" where
  "fatal_serve_error err = (err \<noteq> None \<and> err \<noteq> Some ErrServerClosed)"

text \<open>The context of the \<^verbatim>\<open>Stop\<close> that a caller runs; the serve goroutine passes a cancelled one.\<close>

fun stop_ctx :: "call \<Rightarrow> ctx" where
  "stop_ctx (StopCall c) = c"
| "stop_ctx (ServeLoop err) = canceled_ctx"
| "stop_ctx (AddCall f) = canceled_ctx"
| "stop_ctx NoCall = canceled_ctx"

text \<open>
  One step of caller \<open>t\<close>. \<^verbatim>\<open>Stop\<close>:
  \<^verbatim>\<open>s.shutdownFuncsM.Lock(); defer s.shutdownFuncsM.Unlock()
  s.shutdownOnce.Do(func() {
      close(s.shuttingDown)
      wg := sync.WaitGroup{}; wg.Add(1); go func() { defer wg.Done(); ...drain... }()
      for _, f := range s.shutdownFuncs { f := f; wg.Add(1)
          go func() { defer wg.Done(); f(ctx) }() }
      wg.Wait() })\<close>
  \<^verbatim>\<open>addShutdownFunc\<close>:
  \<^verbatim>\<open>s.shutdownFuncsM.Lock(); defer s.shutdownFuncsM.Unlock()
  s.shutdownFuncs = append(s.shutdownFuncs, f)\<close>
  The goroutine of \<^verbatim>\<open>Serve\<close> and \<^verbatim>\<open>ServeTLS\<close>:
  \<^verbatim>\<open>err := s.srv.Serve(l)
  if err != nil && err != http.ErrServerClosed {
      slog.Error(nil, "HTTP server error: %v", err)
      ctx, cancel := context.WithCancel(context.Background()); cancel(); s.Stop(ctx) }\<close>
  \<^verbatim>\<open>Once.Do\<close> runs the function when the once is not done and marks it as done when
  the function returns; a caller is at \<^verbatim>\<open>Do\<close> only while it holds the mutex. Closing a
  closed channel panics. The loop ranges over the list as it is when the loop starts.
  Nothing moves once the process has ended.
\<close>

definition thread_step :: "world \<Rightarrow> nat \<Rightarrow> state \<Rightarrow> state" where
  "thread_step w t s =
     (if crashed s then s else
      case pcs s t of
        Start \<Rightarrow>
          (case prog w t of
             StopCall c \<Rightarrow> lock t DoOnce s
           | AddCall f \<Rightarrow> lock t Append s
           | ServeLoop err \<Rightarrow>
               if fatal_serve_error err
               then goto t StopLock (s\<lparr>trace := trace s @ [Log ErrorSeverity err]\<rparr>)
               else goto t Returned s
           | NoCall \<Rightarrow> s)
      | StopLock \<Rightarrow> lock t DoOnce s
      | DoOnce \<Rightarrow>
          if once_done s then goto t AtUnlock s
          else goto t CloseChan (s\<lparr>execs := execs s @ [t]\<rparr>)
      | CloseChan \<Rightarrow>
          if chan_closed s then s\<lparr>crashed := True\<rparr>
          else goto t GoDrain (s\<lparr>chan_closed := True, trace := trace s @ [Closed]\<rparr>)
      | GoDrain \<Rightarrow>
          goto t (GoFuncs (shutdownFuncs s))
            (s\<lparr>wg := 1, branches := branches s @ [(Drain (stop_ctx (prog w t)), Running)]\<rparr>)
      | GoFuncs fs \<Rightarrow>
          (case fs of
             [] \<Rightarrow> goto t Wait s
           | f # fs' \<Rightarrow>
               goto t (GoFuncs fs')
                 (s\<lparr>wg := wg s + 1,
                    branches := branches s @ [(Part f (stop_ctx (prog w t)), Running)]\<rparr>))
      | Wait \<Rightarrow> if wg s = 0 then goto t AtUnlock (s\<lparr>once_done := True\<rparr>) else s
      | Append \<Rightarrow>
          (case prog w t of
             AddCall f \<Rightarrow> goto t AtUnlock (s\<lparr>shutdownFuncs := shutdownFuncs s @ [f]\<rparr>)
           | _ \<Rightarrow> s)
      | AtUnlock \<Rightarrow> unlock t Returned s
      | Returned \<Rightarrow> s)"

text \<open>What a goroutine started by \<^verbatim>\<open>Stop\<close> does: the drain, or \<^verbatim>\<open>f(ctx)\<close>.\<close>

fun run_branch :: "world \<Rightarrow> branch \<Rightarrow> event list \<times> outcome" where
  "run_branch w (Drain c) = drain_body (srv_Shutdown w) (srv_Close w) c"
| "run_branch w (Part f c) = ([Invoke f c], fn_run w f c)"

fun after :: "outcome \<Rightarrow> status" where
  "after Returns = Finished"
| "after Panics = Unwinding"

text \<open>
  One step of the \<open>j\<close>-th goroutine started by \<^verbatim>\<open>Stop\<close>. A running goroutine finishes its
  body; its deferred \<^verbatim>\<open>wg.Done()\<close> runs whether the body returned or panicked (and panics
  itself on a counter that is zero). A goroutine that panicked ends the process with its
  next step: nothing recovers the panic.
\<close>

definition branch_step :: "world \<Rightarrow> nat \<Rightarrow> state \<Rightarrow> state" where
  "branch_step w j s =
     (if crashed s \<or> length (branches s) \<le> j then s else
      case branches s ! j of
        (b, Running) \<Rightarrow>
          (case run_branch w b of (evs, out) \<Rightarrow>
             if wg s = 0 then s\<lparr>trace := trace s @ evs, crashed := True\<rparr>
             else s\<lparr>trace := trace s @ evs, wg := wg s - 1,
                    branches := (branches s)[j := (b, after out)]\<rparr>)
      | (b, Unwinding) \<Rightarrow> s\<lparr>crashed := True\<rparr>
      | (b, Finished) \<Rightarrow> s)"

text \<open>
  The scheduler picks the goroutine that moves next; a run follows a schedule. Every
  interleaving of the callers and of the goroutines of \<^verbatim>\<open>Stop\<close> is a schedule, and a
  goroutine that is never picked again is one that blocks for ever.
\<close>

datatype choice = RunCaller nat | RunBranch nat

fun step :: "world \<Rightarrow> state \<Rightarrow> choice \<Rightarrow> state" where
  "step w s (RunCaller t) = thread_step w t s"
| "step w s (RunBranch j) = branch_step w j s"

definition run :: "world \<Rightarrow> state \<Rightarrow> choice list \<Rightarrow> state" where
  "run w s sched = foldl (step w) s sched"

subsection \<open>Starting a server\<close>

text \<open>
  The \<^verbatim>\<open>Request\<close> type is declared outside the files at hand; \<^verbatim>\<open>Serve\<close> sets its field
  \<^verbatim>\<open>server\<close>. The filter that \<^verbatim>\<open>Serve\<close> and \<^verbatim>\<open>ServeTLS\<close> put around the service:
  \<^verbatim>\<open>func(req Request, svc Service) Response { req.server = s; return svc(req) }\<close>
\<close>

record 's Request =
  server :: "'s option"

definition inject :: "'s \<Rightarrow> (('s, 'a) Request_scheme, 'r, 'e) filter" where
  "inject self = (\<lambda>req svc. svc (req\<lparr>server := Some self\<rparr>))"

record ('l, 'h, 'p) Server =
  Server_l :: 'l
  Server_srv :: "('h, 'p) http_Server"
  Server_sync :: state

text \<open>
  \<^verbatim>\<open>Serve\<close> and \<^verbatim>\<open>ServeTLS\<close> build the server, start the serve goroutine (a caller
  \<open>ServeLoop err\<close> of the model, \<open>err\<close> being what \<^verbatim>\<open>s.srv.Serve(l)\<close> returns) and return
  \<^verbatim>\<open>s, nil\<close>. \<open>HttpHandler\<close> is declared outside the files at hand and \<open>self\<close> is the
  address of the new server.
\<close>

definition Serve :: "((('s, 'a) Request_scheme, 'r, 'e) service \<Rightarrow> 'h) \<Rightarrow> 's
    \<Rightarrow> (('s, 'a) Request_scheme, 'r, 'e) service \<Rightarrow> 'l \<Rightarrow> ('l, 'h, 'p) Server \<times> error option" where
  "Serve HttpHandler self svc l =
     (\<lparr>Server_l = l,
       Server_srv = \<lparr>Handler = HttpHandler (Filter svc (inject self)),
                     MaxHeaderBytes = DefaultMaxHeaderBytes, TLSConfig = None,
                     TLSNextProto = None\<rparr>,
       Server_sync = new_Server\<rparr>, None)"

definition ServeTLS :: "((('s, 'a) Request_scheme, 'r, 'e) service \<Rightarrow> 'h) \<Rightarrow> 's
    \<Rightarrow> (('s, 'a) Request_scheme, 'r, 'e) service \<Rightarrow> 'l \<Rightarrow> string \<Rightarrow> string \<Rightarrow> tls_Config option
    \<Rightarrow> ('l, 'h, 'p) Server \<times> error option" where
  "ServeTLS HttpHandler self svc l certFile keyFile cfg =
     (\<lparr>Server_l = l,
       Server_srv = ServeTLS_srv (HttpHandler (Filter svc (inject self))) cfg,
       Server_sync = new_Server\<rparr>, None)"

text \<open>
  \<^verbatim>\<open>Listen\<close>: resolve the chosen address, listen on it, serve. \<open>ResolveTCPAddr\<close> and
  \<open>ListenTCP\<close> are the two functions of the \<^verbatim>\<open>net\<close> package; an error of either is
  returned to the caller.
\<close>

definition Listen :: "(string \<Rightarrow> error + 'addr) \<Rightarrow> ('addr \<Rightarrow> error + 'l)
    \<Rightarrow> ((('s, 'a) Request_scheme, 'r, 'e) service \<Rightarrow> 'h) \<Rightarrow> 's \<Rightarrow> environ
    \<Rightarrow> (('s, 'a) Request_scheme, 'r, 'e) service \<Rightarrow> string \<Rightarrow> error + ('l, 'h, 'p) Server" where
  "Listen ResolveTCPAddr ListenTCP HttpHandler self env svc addr =
     (case ResolveTCPAddr (Listen_addr env addr) of
        Inl err \<Rightarrow> Inl err
      | Inr tcpAddr \<Rightarrow>
          (case ListenTCP tcpAddr of
             Inl err \<Rightarrow> Inl err
           | Inr l \<Rightarrow> Inr (fst (Serve HttpHandler self svc l))))"

text \<open>
  \<^verbatim>\<open>ListenTLS\<close> chooses the address as \<^verbatim>\<open>Listen\<close> does and hands the listener, the
  certificate files and the configuration to \<^verbatim>\<open>ServeTLS\<close>.
\<close>

definition ListenTLS :: "(string \<Rightarrow> error + 'addr) \<Rightarrow> ('addr \<Rightarrow> error + 'l)
    \<Rightarrow> ((('s, 'a) Request_scheme, 'r, 'e) service \<Rightarrow> 'h) \<Rightarrow> 's \<Rightarrow> environ
    \<Rightarrow> (('s, 'a) Request_scheme, 'r, 'e) service \<Rightarrow> string \<Rightarrow> string \<Rightarrow> string
    \<Rightarrow> tls_Config option \<Rightarrow> error + ('l, 'h, 'p) Server" where
  "ListenTLS ResolveTCPAddr ListenTCP HttpHandler self env svc addr certFile keyFile cfg =
     (case ResolveTCPAddr (Listen_addr env addr) of
        Inl err \<Rightarrow> Inl err
      | Inr tcpAddr \<Rightarrow>
          (case ListenTCP tcpAddr of
             Inl err \<Rightarrow> Inl err
           | Inr l \<Rightarrow> Inr (fst (ServeTLS HttpHandler self svc l certFile keyFile cfg))))"

subsection \<open>What holds in every state a server can reach\<close>

text \<open>The places between \<^verbatim>\<open>Lock\<close> and \<^verbatim>\<open>Unlock\<close>.\<close>

fun in_crit :: "pc \<Rightarrow> bool" where
  "in_crit Start = False"
| "in_crit StopLock = False"
| "in_crit Returned = False"
| "in_crit DoOnce = True"
| "in_crit CloseChan = True"
| "in_crit GoDrain = True"
| "in_crit (GoFuncs fs) = True"
| "in_crit Wait = True"
| "in_crit Append = True"
| "in_crit AtUnlock = True"

text \<open>The callers that run \<^verbatim>\<open>Stop\<close>: a \<^verbatim>\<open>Stop\<close> call, or a serve goroutine after a fatal error.\<close>

fun stop_like :: "call \<Rightarrow> bool" where
  "stop_like (StopCall c) = True"
| "stop_like (ServeLoop err) = fatal_serve_error err"
| "stop_like (AddCall f) = False"
| "stop_like NoCall = False"

text \<open>The places only a caller that runs \<^verbatim>\<open>Stop\<close> comes to.\<close>

fun on_stop_path :: "pc \<Rightarrow> bool" where
  "on_stop_path StopLock = True"
| "on_stop_path DoOnce = True"
| "on_stop_path CloseChan = True"
| "on_stop_path GoDrain = True"
| "on_stop_path (GoFuncs fs) = True"
| "on_stop_path Wait = True"
| "on_stop_path Start = False"
| "on_stop_path Append = False"
| "on_stop_path AtUnlock = False"
| "on_stop_path Returned = False"

text \<open>The number of goroutines of the shutdown that have not finished their body.\<close>

definition running :: "(branch \<times> status) list \<Rightarrow> nat" where
  "running bs = length (filter (\<lambda>b. snd b = Running) bs)"

text \<open>The goroutines one run of the shutdown starts: the drain, then one per registered function.\<close>

definition spawned :: "ctx \<Rightarrow> nat list \<Rightarrow> branch list" where
  "spawned c fs = Drain c # map (\<lambda>f. Part f c) fs"

text \<open>
  The part of the state the shutdown is about: whether the once is done, whether the
  channel is closed, who entered the once, the goroutines started, how often the channel
  was closed, and the registered functions. Before the shutdown the state is \<open>fresh\<close>;
  after it, \<open>finished\<close>; in between, one caller is \<open>executing\<close> it and has \<open>launched\<close> the
  drain and the functions of the list up to those still to come. \<open>holder_ok\<close> says what
  holds where the holder of the mutex stands.
\<close>

type_synonym view = "bool \<times> bool \<times> nat list \<times> (branch \<times> status) list \<times> nat \<times> nat list"

definition view :: "state \<Rightarrow> view" where
  "view s = (once_done s, chan_closed s, execs s, branches s, count_list (trace s) Closed,
     shutdownFuncs s)"

fun fresh :: "view \<Rightarrow> bool" where
  "fresh (od, cc, ex, bs, n, fs) = (\<not> od \<and> \<not> cc \<and> ex = [] \<and> bs = [] \<and> n = 0)"

fun finished :: "view \<Rightarrow> bool" where
  "finished (od, cc, ex, bs, n, fs) =
     (od \<and> cc \<and> length ex = 1 \<and> n = 1 \<and> running bs = 0 \<and> bs \<noteq> [])"

fun executing :: "view \<Rightarrow> nat \<Rightarrow> bool" where
  "executing (od, cc, ex, bs, n, fs) t = (\<not> od \<and> cc \<and> ex = [t] \<and> n = 1)"

fun launched :: "view \<Rightarrow> ctx \<Rightarrow> nat list \<Rightarrow> bool" where
  "launched (od, cc, ex, bs, n, fs) c rest =
     (map fst bs @ map (\<lambda>f. Part f c) rest = spawned c fs)"

fun holder_ok :: "world \<Rightarrow> view \<Rightarrow> nat \<Rightarrow> pc \<Rightarrow> bool" where
  "holder_ok w v t DoOnce = (fresh v \<or> finished v)"
| "holder_ok w v t Append = (fresh v \<or> finished v)"
| "holder_ok w v t AtUnlock = ((fresh v \<or> finished v) \<and> (stop_like (prog w t) \<longrightarrow> fst v))"
| "holder_ok w v t CloseChan = (v = (False, False, [t], [], 0, snd (snd (snd (snd (snd v))))))"
| "holder_ok w v t GoDrain = (executing v t \<and> fst (snd (snd (snd v))) = [])"
| "holder_ok w v t (GoFuncs rest) = (executing v t \<and> launched v (stop_ctx (prog w t)) rest)"
| "holder_ok w v t Wait = (executing v t \<and> launched v (stop_ctx (prog w t)) [])"
| "holder_ok w v t Start = False"
| "holder_ok w v t StopLock = False"
| "holder_ok w v t Returned = False"

text \<open>The context a goroutine of the shutdown was given.\<close>

fun branch_ctx :: "branch \<Rightarrow> ctx" where
  "branch_ctx (Drain c) = c"
| "branch_ctx (Part f c) = c"

text \<open>
  The invariant: the counter of the wait group is the number of running goroutines; a
  caller of \<^verbatim>\<open>Stop\<close> has returned only after the once was done; only callers of \<^verbatim>\<open>Stop\<close>
  are inside it; and with the mutex free nobody is between \<^verbatim>\<open>Lock\<close> and \<^verbatim>\<open>Unlock\<close>,
  while with the mutex held only its holder is.
\<close>

definition server_inv :: "world \<Rightarrow> state \<Rightarrow> bool" where
  "server_inv w s = (wg s = running (branches s)
     \<and> (\<forall>t. pcs s t = Returned \<and> stop_like (prog w t) \<longrightarrow> once_done s)
     \<and> (\<forall>t. on_stop_path (pcs s t) \<longrightarrow> stop_like (prog w t))
     \<and> (\<forall>t \<in> set (execs s). stop_like (prog w t))
     \<and> (case mutex s of
          None \<Rightarrow> (\<forall>t. \<not> in_crit (pcs s t)) \<and> (fresh (view s) \<or> finished (view s))
        | Some t \<Rightarrow> (\<forall>u. u \<noteq> t \<longrightarrow> \<not> in_crit (pcs s u)) \<and> holder_ok w (view s) t (pcs s t)))"

text \<open>Every goroutine of the shutdown carries the context of the caller that runs it.\<close>

definition ctx_inv :: "world \<Rightarrow> state \<Rightarrow> bool" where
  "ctx_inv w s = (\<forall>b \<in> set (branches s). \<forall>t \<in> set (execs s).
     branch_ctx (fst b) = stop_ctx (prog w t))"

text \<open>The process ends only through a goroutine that panicked, and only a body that panics does.\<close>

definition crash_inv :: "world \<Rightarrow> state \<Rightarrow> bool" where
  "crash_inv w s = ((crashed s \<longrightarrow> (\<exists>b. (b, Unwinding) \<in> set (branches s)))
     \<and> (\<forall>b. (b, Unwinding) \<in> set (branches s) \<longrightarrow> snd (run_branch w b) = Panics))"

text \<open>
  What a goroutine of the shutdown did is in the events once it has ended, and the first
  goroutine started is the drain.
\<close>

definition trace_inv :: "world \<Rightarrow> state \<Rightarrow> bool" where
  "trace_inv w s = ((\<forall>b st. (b, st) \<in> set (branches s) \<and> st \<noteq> Running \<longrightarrow>
        set (fst (run_branch w b)) \<subseteq> set (trace s))
     \<and> (branches s \<noteq> [] \<longrightarrow> (\<exists>c. fst (hd (branches s)) = Drain c)))"

subsection \<open>An example: one registration, two calls of Stop\<close>

definition example_world :: world where
  "example_world = \<lparr>prog = (\<lambda>t. if t = 0 then AddCall 7 else if t = 1 then StopCall (Ctx 1 False)
                     else if t = 2 then StopCall (Ctx 2 False) else NoCall),
         srv_Shutdown = (\<lambda>c. None), srv_Close = None, fn_run = (\<lambda>f c. Returns)\<rparr>"

text \<open>The two calls of \<^verbatim>\<open>Stop\<close> interleaved: caller 2 asks for the mutex while caller 1 holds it.\<close>

definition example_schedule :: "choice list" where
  "example_schedule = [RunCaller 0, RunCaller 0, RunCaller 0, RunCaller 1, RunCaller 2,
     RunCaller 1, RunCaller 1, RunCaller 1, RunCaller 1, RunBranch 1, RunCaller 1, RunCaller 2,
     RunCaller 1, RunBranch 0, RunCaller 1, RunCaller 1, RunCaller 2, RunCaller 2, RunCaller 2]"

text \<open>The example up to the point where caller 1 waits for the goroutines it started.\<close>

definition example_launch :: "choice list" where
  "example_launch = [RunCaller 0, RunCaller 0, RunCaller 0, RunCaller 1, RunCaller 1,
     RunCaller 1, RunCaller 1, RunCaller 1, RunCaller 1]"

subsection \<open>An example: a registered function that panics\<close>

definition panic_world :: world where
  "panic_world = \<lparr>prog = (\<lambda>t. if t = 0 then AddCall 7 else if t = 1 then StopCall (Ctx 1 False)
                     else NoCall),
         srv_Shutdown = (\<lambda>c. None), srv_Close = None, fn_run = (\<lambda>f c. Panics)\<rparr>"

definition panic_schedule :: "choice list" where
  "panic_schedule = example_launch @ [RunBranch 1, RunBranch 1]"

subsection \<open>An example: the graceful drain fails and the forceful close fails too\<close>

definition escalation_world :: world where
  "escalation_world = \<lparr>prog = (\<lambda>t. if t = 0 then StopCall (Ctx 1 True) else NoCall),
     srv_Shutdown = (\<lambda>c. Some (OtherError 1)), srv_Close = Some (OtherError 2),
     fn_run = (\<lambda>f c. Returns)\<rparr>"

definition escalation_schedule :: "choice list" where
  "escalation_schedule = [RunCaller 0, RunCaller 0, RunCaller 0, RunCaller 0]"

subsection \<open>An example: the accept loop fails\<close>

definition serve_world :: world where
  "serve_world = \<lparr>prog = (\<lambda>t. if t = 0 then ServeLoop (Some (OtherError 3)) else NoCall),
     srv_Shutdown = (\<lambda>c. if ctx_done c then Some (OtherError 1) else None), srv_Close = None,
     fn_run = (\<lambda>f c. Returns)\<rparr>"

definition serve_schedule :: "choice list" where
  "serve_schedule = [RunCaller 0, RunCaller 0, RunCaller 0, RunCaller 0, RunCaller 0]"

subsection \<open>An example: a registration while Stop is running\<close>



subsection \<open>A schedule that lets one call of Stop run alone\<close>

text \<open>
  Caller \<open>t\<close> takes the mutex, enters the once, closes the channel, starts the drain and
  the \<open>n\<close> registered functions and reaches \<open>wg.Wait()\<close>; the goroutines finish one after
  the other; the caller leaves \<open>wg.Wait()\<close> and unlocks.
\<close>

definition stop_schedule :: "nat \<Rightarrow> nat \<Rightarrow> choice list" where
  "stop_schedule t n = replicate 4 (RunCaller t) @ replicate n (RunCaller t) @ [RunCaller t]
     @ map RunBranch [0..<Suc n] @ [RunCaller t, RunCaller t]"

text \<open>The serve goroutine first looks at the error of the accept loop, then runs \<^verbatim>\<open>Stop\<close> alone.\<close>

definition serve_stop_schedule :: "nat \<Rightarrow> nat \<Rightarrow> choice list" where
  "serve_stop_schedule t n = RunCaller t # stop_schedule t n"

text \<open>The example after the shutdown has run and caller 1 has returned; caller 2 has not moved.\<close>

definition example_done :: "choice list" where
  "example_done = example_launch @ [RunBranch 0, RunBranch 1, RunCaller 1, RunCaller 1]"

subsection \<open>An example: the accept loop fails while a call of Stop runs the shutdown\<close>

text \<open>
  Caller 0 calls \<^verbatim>\<open>Stop\<close> with a context that is not done; the accept loop of the serve
  goroutine, caller 1, has failed. The \<^verbatim>\<open>http.Server\<close> drains within a live context
  and fails on one that is done. Caller 0 takes the mutex first; the serve goroutine
  logs, waits for the mutex and returns after caller 0.
\<close>

definition graceful_world :: world where
  "graceful_world = \<lparr>prog = (\<lambda>t. if t = 0 then StopCall (Ctx 1 False)
                     else if t = 1 then ServeLoop (Some (OtherError 3)) else NoCall),
     srv_Shutdown = (\<lambda>c. if ctx_done c then Some (OtherError 1) else None), srv_Close = None,
     fn_run = (\<lambda>f c. Returns)\<rparr>"

definition graceful_schedule :: "choice list" where
  "graceful_schedule = [RunCaller 0, RunCaller 0, RunCaller 0, RunCaller 0, RunCaller 0,
     RunCaller 1, RunCaller 1, RunBranch 0, RunCaller 0, RunCaller 0,
     RunCaller 1, RunCaller 1, RunCaller 1]"

subsection \<open>An example: the accept loop fails on a server with nothing to drain\<close>

text \<open>The graceful \<^verbatim>\<open>Shutdown\<close> of an idle \<^verbatim>\<open>http.Server\<close> returns no error, whatever the context.\<close>

definition idle_world :: world where
  "idle_world = \<lparr>prog = (\<lambda>t. if t = 0 then ServeLoop (Some (OtherError 3)) else NoCall),
     srv_Shutdown = (\<lambda>c. None), srv_Close = None, fn_run = (\<lambda>f c. Returns)\<rparr>"

subsection \<open>Examples: services for the HSTS filter\<close>

text \<open>
  A service whose response embeds no \<^verbatim>\<open>*http.Response\<close>, one whose response has a nil
  header, and one that answers with a content type.
\<close>

definition nil_response_service :: "(unit, panic + (unit, unit) Response_scheme, unit) service" where
  "nil_response_service = (\<lambda>req \<sigma>. (Inr \<lparr>Response_ptr = None\<rparr>, \<sigma>))"

definition nil_header_service :: "(unit, panic + (unit, unit) Response_scheme, unit) service" where
  "nil_header_service = (\<lambda>req \<sigma>. (Inr \<lparr>Response_ptr = Some \<lparr>Header = None\<rparr>\<rparr>, \<sigma>))"

definition pong_service :: "(unit, panic + (unit, unit) Response_scheme, unit) service" where
  "pong_service = (\<lambda>req \<sigma>.
     (Inr \<lparr>Response_ptr = Some \<lparr>Header = Some [''Content-Type'' \<mapsto> [''text/plain'']]\<rparr>\<rparr>, \<sigma>))"

chapter \<open>Properties of the model\<close>

section \<open>Every step of a caller keeps the invariant\<close>

lemma inv_new: "server_inv w new_Server"
  by (simp add: server_inv_def new_Server_def view_def running_def)

lemma inv_holder:
  assumes "server_inv w s" "in_crit (pcs s t)"
  shows "mutex s = Some t \<and> holder_ok w (view s) t (pcs s t)"
proof (cases "mutex s")
  case None
  with assms show ?thesis by (simp add: server_inv_def)
next
  case (Some u)
  with assms have "u = t" by (auto simp: server_inv_def)
  with Some assms show ?thesis by (simp add: server_inv_def)
qed

lemma inv_crashed: "crashed s \<Longrightarrow> thread_step w t s = s" "crashed s \<Longrightarrow> branch_step w j s = s"
  by (simp_all add: thread_step_def branch_step_def)

lemma inv_Start:
  assumes "server_inv w s" "\<not> crashed s" "pcs s t = Start"
  shows "server_inv w (thread_step w t s)"
  using assms
  by (auto simp: server_inv_def view_def thread_step_def goto_def lock_def
      split: call.splits option.splits)

lemma inv_StopLock:
  assumes "server_inv w s" "\<not> crashed s" "pcs s t = StopLock"
  shows "server_inv w (thread_step w t s)"
  using assms
  by (auto simp: server_inv_def view_def thread_step_def goto_def lock_def
      split: call.splits option.splits)

lemma inv_DoOnce:
  assumes "server_inv w s" "\<not> crashed s" "pcs s t = DoOnce"
  shows "server_inv w (thread_step w t s)"
proof -
  from assms inv_holder [of w s t] have h: "mutex s = Some t" "holder_ok w (view s) t DoOnce"
    by simp_all
  with assms show ?thesis
    by (auto simp: server_inv_def view_def thread_step_def goto_def)
qed

lemma inv_CloseChan:
  assumes "server_inv w s" "\<not> crashed s" "pcs s t = CloseChan"
  shows "server_inv w (thread_step w t s)"
proof -
  from assms inv_holder [of w s t] have h: "mutex s = Some t" "holder_ok w (view s) t CloseChan"
    by simp_all
  with assms show ?thesis
    by (auto simp: server_inv_def view_def thread_step_def goto_def)
qed

lemma inv_GoDrain:
  assumes "server_inv w s" "\<not> crashed s" "pcs s t = GoDrain"
  shows "server_inv w (thread_step w t s)"
proof -
  from assms inv_holder [of w s t] have h: "mutex s = Some t" "holder_ok w (view s) t GoDrain"
    by simp_all
  with assms show ?thesis
    by (auto simp: server_inv_def view_def thread_step_def goto_def running_def spawned_def)
qed

lemma inv_GoFuncs:
  assumes "server_inv w s" "\<not> crashed s" "pcs s t = GoFuncs rest"
  shows "server_inv w (thread_step w t s)"
proof -
  from assms inv_holder [of w s t] have h: "mutex s = Some t" "holder_ok w (view s) t (GoFuncs rest)"
    by simp_all
  with assms show ?thesis
    by (cases rest) (auto simp: server_inv_def view_def thread_step_def goto_def running_def)
qed

lemma inv_Wait:
  assumes "server_inv w s" "\<not> crashed s" "pcs s t = Wait"
  shows "server_inv w (thread_step w t s)"
proof -
  from assms inv_holder [of w s t] have h: "mutex s = Some t" "holder_ok w (view s) t Wait"
    by simp_all
  with assms show ?thesis
    by (auto simp: server_inv_def view_def thread_step_def goto_def spawned_def)
qed

lemma inv_Append:
  assumes "server_inv w s" "\<not> crashed s" "pcs s t = Append"
  shows "server_inv w (thread_step w t s)"
proof -
  from assms inv_holder [of w s t] have h: "mutex s = Some t" "holder_ok w (view s) t Append"
    by simp_all
  with assms show ?thesis
    by (auto simp: server_inv_def view_def thread_step_def goto_def split: call.splits)
qed

lemma inv_AtUnlock:
  assumes "server_inv w s" "\<not> crashed s" "pcs s t = AtUnlock"
  shows "server_inv w (thread_step w t s)"
proof -
  from assms inv_holder [of w s t] have h: "mutex s = Some t" "holder_ok w (view s) t AtUnlock"
    by simp_all
  with assms show ?thesis
    by (auto simp: server_inv_def view_def thread_step_def goto_def unlock_def)
qed

lemma inv_thread_step:
  assumes "server_inv w s"
  shows "server_inv w (thread_step w t s)"
proof (cases "crashed s")
  case True
  with assms show ?thesis by (simp add: inv_crashed)
next
  case False
  show ?thesis
  proof (cases "pcs s t")
    case Returned
    with assms False show ?thesis by (simp add: thread_step_def)
  qed (use assms False in \<open>simp_all add: inv_Start inv_StopLock inv_DoOnce inv_CloseChan
      inv_GoDrain inv_GoFuncs inv_Wait inv_Append inv_AtUnlock\<close>)
qed


section \<open>Every step of a goroutine of the shutdown keeps the invariant\<close>

lemma running_pos:
  "j < length bs \<Longrightarrow> snd (bs ! j) = Running \<Longrightarrow> 0 < running bs"
proof -
  assume "j < length bs" and "snd (bs ! j) = Running"
  then have "bs ! j \<in> set (filter (\<lambda>b. snd b = Running) bs)" by simp
  then have "filter (\<lambda>b. snd b = Running) bs \<noteq> []" by (metis empty_iff list.set(1))
  then show ?thesis by (simp add: running_def)
qed

lemma running_update:
  "j < length bs \<Longrightarrow> snd (bs ! j) = Running \<Longrightarrow> st \<noteq> Running \<Longrightarrow>
     Suc (running (bs[j := (b, st)])) = running bs"
proof (induction bs arbitrary: j)
  case Nil
  then show ?case by simp
next
  case (Cons a bs)
  show ?case
  proof (cases j)
    case 0
    with Cons.prems show ?thesis by (simp add: running_def)
  next
    case (Suc k)
    with Cons.prems Cons.IH [of k] show ?thesis by (simp add: running_def)
  qed
qed

lemma map_fst_update:
  "j < length bs \<Longrightarrow> fst (bs ! j) = b \<Longrightarrow> map fst (bs[j := (b, st)]) = map fst bs"
  by (simp add: map_update list_update_same_conv)

lemma after_not_Running: "after out \<noteq> Running"
  by (cases out) simp_all

lemma run_branch_no_Closed: "count_list (fst (run_branch w b)) Closed = 0"
  by (cases b) (simp_all add: drain_body_def split: option.splits)

lemma holder_ok_branches:
  assumes "holder_ok w (od, cc, ex, bs, n, fs) t p"
    and "map fst bs' = map fst bs" and "running bs' \<le> running bs"
  shows "holder_ok w (od, cc, ex, bs', n, fs) t p"
  using assms by (cases p) auto

lemma quiescent_branches:
  assumes "fresh (od, cc, ex, bs, n, fs) \<or> finished (od, cc, ex, bs, n, fs)"
    and "map fst bs' = map fst bs" and "running bs' \<le> running bs"
  shows "fresh (od, cc, ex, bs', n, fs) \<or> finished (od, cc, ex, bs', n, fs)"
  using assms by auto

lemma inv_crash: "server_inv w s \<Longrightarrow> server_inv w (s\<lparr>crashed := True\<rparr>)"
  by (simp add: server_inv_def view_def split: option.splits)

lemma inv_branch_step:
  assumes "server_inv w s"
  shows "server_inv w (branch_step w j s)"
proof (cases "crashed s \<or> length (branches s) \<le> j")
  case True
  with assms show ?thesis by (simp add: branch_step_def)
next
  case False
  then have j: "j < length (branches s)" and nc: "\<not> crashed s" by simp_all
  obtain b st where bj: "branches s ! j = (b, st)" by (cases "branches s ! j")
  show ?thesis
  proof (cases st)
    case Unwinding
    with bj False assms show ?thesis by (simp add: branch_step_def inv_crash)
  next
    case Finished
    with bj False assms show ?thesis by (simp add: branch_step_def)
  next
    case Running
    obtain evs out where rb: "run_branch w b = (evs, out)" by (cases "run_branch w b")
    from run_branch_no_Closed [of w b] rb have nocl: "count_list evs Closed = 0" by simp
    from j bj Running have pos: "0 < running (branches s)"
      by (intro running_pos [of j]) simp_all
    with assms have wgpos: "wg s \<noteq> 0" by (simp add: server_inv_def)
    let ?bs = "(branches s)[j := (b, after out)]"
    let ?s = "s\<lparr>trace := trace s @ evs, wg := wg s - 1, branches := ?bs\<rparr>"
    from bj Running False rb wgpos have eq: "branch_step w j s = ?s"
      by (simp add: branch_step_def)
    from j bj Running have ru: "Suc (running ?bs) = running (branches s)"
      by (intro running_update) (simp_all add: after_not_Running)
    from j bj have mf: "map fst ?bs = map fst (branches s)"
      by (intro map_fst_update) simp_all
    from ru have le: "running ?bs \<le> running (branches s)" by simp
    have "server_inv w ?s"
      using assms ru nocl holder_ok_branches [OF _ mf le] quiescent_branches [OF _ mf le]
      by (auto simp: server_inv_def view_def split: option.splits)
    with eq show ?thesis by simp
  qed
qed

lemma inv_step: "server_inv w s \<Longrightarrow> server_inv w (step w s c)"
  by (cases c) (simp_all add: inv_thread_step inv_branch_step)

lemma inv_run: "server_inv w s \<Longrightarrow> server_inv w (run w s sched)"
  unfolding run_def by (induction sched arbitrary: s) (simp_all add: inv_step)

lemma inv_reachable: "server_inv w (run w new_Server sched)"
  by (simp add: inv_run inv_new)


section \<open>The process ends only through a panic\<close>

lemma crash_inv_new: "crash_inv w new_Server"
  by (simp add: crash_inv_def new_Server_def)

lemma crash_inv_thread_step:
  assumes "server_inv w s" "crash_inv w s"
  shows "crash_inv w (thread_step w t s)"
proof (cases "crashed s")
  case True
  with assms show ?thesis by (simp add: inv_crashed)
next
  case False
  show ?thesis
  proof (cases "in_crit (pcs s t)")
    case True
    with assms inv_holder [of w s t]
    have h: "mutex s = Some t" "holder_ok w (view s) t (pcs s t)" by simp_all
    with assms False show ?thesis
      by (cases "pcs s t")
        (auto simp: crash_inv_def thread_step_def goto_def unlock_def view_def
          split: call.splits list.splits)
  next
    case False
    with assms \<open>\<not> crashed s\<close> show ?thesis
      by (cases "pcs s t")
        (auto simp: crash_inv_def thread_step_def goto_def lock_def
          split: call.splits option.splits)
  qed
qed

lemma crash_inv_branch_step:
  assumes "server_inv w s" "crash_inv w s"
  shows "crash_inv w (branch_step w j s)"
proof (cases "crashed s \<or> length (branches s) \<le> j")
  case True
  with assms show ?thesis by (simp add: branch_step_def)
next
  case False
  then have j: "j < length (branches s)" and nc: "\<not> crashed s" by simp_all
  obtain b st where bj: "branches s ! j = (b, st)" by (cases "branches s ! j")
  from j bj have mem: "(b, st) \<in> set (branches s)" by (metis nth_mem)
  show ?thesis
  proof (cases st)
    case Unwinding
    with bj False assms mem show ?thesis by (auto simp: branch_step_def crash_inv_def)
  next
    case Finished
    with bj False assms show ?thesis by (simp add: branch_step_def)
  next
    case Running
    obtain evs out where rb: "run_branch w b = (evs, out)" by (cases "run_branch w b")
    from j bj Running have pos: "0 < running (branches s)"
      by (intro running_pos [of j]) simp_all
    with assms have wgpos: "wg s \<noteq> 0" by (simp add: server_inv_def)
    let ?bs = "(branches s)[j := (b, after out)]"
    from bj Running False rb wgpos
    have eq: "branch_step w j s = s\<lparr>trace := trace s @ evs, wg := wg s - 1, branches := ?bs\<rparr>"
      by (simp add: branch_step_def)
    have "(b', Unwinding) \<in> set ?bs \<Longrightarrow> snd (run_branch w b') = Panics" for b'
    proof -
      assume "(b', Unwinding) \<in> set ?bs"
      then have "(b', Unwinding) = (b, after out) \<or> (b', Unwinding) \<in> set (branches s)"
        using set_update_subset_insert [of "branches s" j "(b, after out)"] by auto
      then show ?thesis
      proof
        assume "(b', Unwinding) = (b, after out)"
        with rb show ?thesis by (cases out) simp_all
      next
        assume "(b', Unwinding) \<in> set (branches s)"
        with assms show ?thesis by (simp add: crash_inv_def)
      qed
    qed
    with eq nc show ?thesis by (simp add: crash_inv_def)
  qed
qed

lemma crash_inv_run: "server_inv w s \<Longrightarrow> crash_inv w s \<Longrightarrow> crash_inv w (run w s sched)"
  unfolding run_def
proof (induction sched arbitrary: s)
  case Nil
  then show ?case by simp
next
  case (Cons c sched)
  from Cons.prems have a: "server_inv w (step w s c)" by (simp add: inv_step)
  from Cons.prems have b: "crash_inv w (step w s c)"
    by (cases c) (simp_all add: crash_inv_thread_step crash_inv_branch_step)
  from a b Cons.IH show ?case by simp
qed

lemma crash_inv_reachable: "crash_inv w (run w new_Server sched)"
  by (simp add: crash_inv_run inv_new crash_inv_new)

section \<open>The goroutines of the shutdown carry the context of its caller\<close>

lemma ctx_inv_new: "ctx_inv w new_Server"
  by (simp add: ctx_inv_def new_Server_def)

lemma ctx_inv_thread_step:
  assumes "server_inv w s" "ctx_inv w s"
  shows "ctx_inv w (thread_step w t s)"
proof (cases "crashed s")
  case True
  with assms show ?thesis by (simp add: inv_crashed)
next
  case False
  show ?thesis
  proof (cases "in_crit (pcs s t)")
    case True
    with assms inv_holder [of w s t]
    have h: "mutex s = Some t" "holder_ok w (view s) t (pcs s t)" by simp_all
    with assms False show ?thesis
      by (cases "pcs s t")
        (auto simp: ctx_inv_def thread_step_def goto_def unlock_def view_def
          split: call.splits list.splits)
  next
    case False
    with assms \<open>\<not> crashed s\<close> show ?thesis
      by (cases "pcs s t")
        (auto simp: ctx_inv_def thread_step_def goto_def lock_def
          split: call.splits option.splits)
  qed
qed

lemma ctx_inv_branch_step:
  assumes "ctx_inv w s"
  shows "ctx_inv w (branch_step w j s)"
proof (cases "crashed s \<or> length (branches s) \<le> j")
  case True
  with assms show ?thesis by (simp add: branch_step_def)
next
  case False
  then have j: "j < length (branches s)" by simp
  obtain b st where bj: "branches s ! j = (b, st)" by (cases "branches s ! j")
  from j bj have mem: "(b, st) \<in> set (branches s)" by (metis nth_mem)
  have upd: "branch_ctx (fst x) = stop_ctx (prog w t)"
    if "x \<in> set ((branches s)[j := (b, st')])" "t \<in> set (execs s)" for x st' t
  proof -
    from that(1) have "x = (b, st') \<or> x \<in> set (branches s)"
      using set_update_subset_insert [of "branches s" j "(b, st')"] by auto
    with assms mem that(2) show ?thesis by (auto simp: ctx_inv_def)
  qed
  from False bj assms upd show ?thesis
    by (cases st) (auto simp: branch_step_def ctx_inv_def split: prod.splits)
qed

lemma ctx_inv_run: "server_inv w s \<Longrightarrow> ctx_inv w s \<Longrightarrow> ctx_inv w (run w s sched)"
  unfolding run_def
proof (induction sched arbitrary: s)
  case Nil
  then show ?case by simp
next
  case (Cons c sched)
  from Cons.prems have a: "server_inv w (step w s c)" by (simp add: inv_step)
  from Cons.prems have b: "ctx_inv w (step w s c)"
    by (cases c) (simp_all add: ctx_inv_thread_step ctx_inv_branch_step)
  from a b Cons.IH show ?case by simp
qed

lemma ctx_inv_reachable: "ctx_inv w (run w new_Server sched)"
  by (simp add: ctx_inv_run inv_new ctx_inv_new)

section \<open>Consequences of the invariant\<close>

lemmas step_simps = run_def thread_step_def branch_step_def goto_def lock_def unlock_def
  new_Server_def drain_body_def fatal_serve_error_def

lemma running_zero: "running bs = 0 \<longleftrightarrow> (\<forall>b \<in> set bs. snd b \<noteq> Running)"
  by (auto simp: running_def filter_empty_conv)

lemma inv_once_done:
  assumes "server_inv w s" "once_done s"
  shows "finished (view s)"
proof (cases "mutex s")
  case None
  with assms show ?thesis by (auto simp: server_inv_def view_def)
next
  case (Some t)
  with assms have "holder_ok w (view s) t (pcs s t)" by (simp add: server_inv_def)
  with assms(2) show ?thesis by (cases "pcs s t") (auto simp: view_def)
qed

lemma inv_summary:
  assumes "server_inv w s"
  shows "length (execs s) \<le> 1 \<and> count_list (trace s) Closed \<le> 1
    \<and> (chan_closed s \<longleftrightarrow> count_list (trace s) Closed = 1)
    \<and> (branches s \<noteq> [] \<longrightarrow> chan_closed s)"
proof (cases "mutex s")
  case None
  with assms show ?thesis by (auto simp: server_inv_def view_def)
next
  case (Some t)
  with assms have "holder_ok w (view s) t (pcs s t)" by (simp add: server_inv_def)
  then show ?thesis by (cases "pcs s t") (auto simp: view_def)
qed

lemma chan_closed_step: "chan_closed s \<Longrightarrow> chan_closed (step w s c)"
  by (cases c)
    (auto simp: thread_step_def branch_step_def goto_def lock_def unlock_def
      split: pc.splits call.splits option.splits list.splits prod.splits status.splits)

lemma chan_closed_run: "chan_closed s \<Longrightarrow> chan_closed (run w s sched)"
  unfolding run_def by (induction sched arbitrary: s) (simp_all add: chan_closed_step)

section \<open>Progress: letting the goroutines finish\<close>

lemma run_append: "run w s (xs @ ys) = run w (run w s xs) ys"
  by (simp add: run_def)

lemma run_crashed: "crashed s \<Longrightarrow> run w s sched = s"
  unfolding run_def
  by (induction sched) (simp_all add: inv_crashed split: choice.splits, metis inv_crashed step.elims)

lemma finish_prefix:
  assumes "server_inv w s" "\<not> crashed s"
    and "\<forall>b \<in> set (branches s). snd b \<noteq> Unwinding"
    and "\<forall>b \<in> set (branches s). snd (run_branch w (fst b)) = Returns"
    and "k \<le> length (branches s)"
  shows "\<not> crashed (run w s (map RunBranch [0..<k]))
    \<and> pcs (run w s (map RunBranch [0..<k])) = pcs s
    \<and> mutex (run w s (map RunBranch [0..<k])) = mutex s
    \<and> once_done (run w s (map RunBranch [0..<k])) = once_done s
    \<and> map fst (branches (run w s (map RunBranch [0..<k]))) = map fst (branches s)
    \<and> (\<forall>b \<in> set (branches (run w s (map RunBranch [0..<k]))). snd b \<noteq> Unwinding)
    \<and> (\<forall>i < k. snd (branches (run w s (map RunBranch [0..<k])) ! i) \<noteq> Running)"
  using assms(5)
proof (induction k)
  case 0
  with assms show ?case by (simp add: run_def)
next
  case (Suc k)
  let ?s = "run w s (map RunBranch [0..<k])"
  from Suc have IH: "\<not> crashed ?s" "pcs ?s = pcs s" "mutex ?s = mutex s"
    "once_done ?s = once_done s" "map fst (branches ?s) = map fst (branches s)"
    "\<forall>b \<in> set (branches ?s). snd b \<noteq> Unwinding"
    "\<forall>i < k. snd (branches ?s ! i) \<noteq> Running"
    by simp_all
  from IH(5) have len: "length (branches ?s) = length (branches s)" by (metis length_map)
  with Suc.prems have k: "k < length (branches ?s)" by simp
  have i: "server_inv w ?s" using assms(1) by (rule inv_run)
  have eq: "run w s (map RunBranch [0..<Suc k]) = branch_step w k ?s"
    by (simp add: run_append) (simp add: run_def)
  obtain b st where bk: "branches ?s ! k = (b, st)" by (cases "branches ?s ! k")
  from k bk have mem: "(b, st) \<in> set (branches ?s)" by (metis nth_mem)
  from k bk IH(5) have "b = fst (branches s ! k)"
    by (metis fst_conv len nth_map)
  with assms(4) Suc.prems have ret: "snd (run_branch w b) = Returns" by simp
  show ?case
  proof (cases st)
    case Unwinding
    with mem IH(6) show ?thesis by auto
  next
    case Finished
    with bk k IH have "branch_step w k ?s = ?s" by (simp add: branch_step_def)
    with eq IH bk Finished show ?thesis by (auto simp: less_Suc_eq)
  next
    case Running
    obtain evs out where rb: "run_branch w b = (evs, out)" by (cases "run_branch w b")
    with ret have out: "out = Returns" by simp
    from k bk Running have "0 < running (branches ?s)"
      by (intro running_pos [of k]) simp_all
    with i have wgpos: "wg ?s \<noteq> 0" by (simp add: server_inv_def)
    let ?bs = "(branches ?s)[k := (b, Finished)]"
    from bk Running IH(1) k rb wgpos out
    have st: "branch_step w k ?s = ?s\<lparr>trace := trace ?s @ evs, wg := wg ?s - 1, branches := ?bs\<rparr>"
      by (simp add: branch_step_def)
    from k bk have mf: "map fst ?bs = map fst (branches ?s)"
      by (intro map_fst_update) simp_all
    have nu: "\<forall>x \<in> set ?bs. snd x \<noteq> Unwinding"
      using IH(6) set_update_subset_insert [of "branches ?s" k "(b, Finished)"] by auto
    have nr: "\<forall>i < Suc k. snd (?bs ! i) \<noteq> Running"
      using IH(7) k by (auto simp: less_Suc_eq nth_list_update)
    from eq st IH mf nu nr show ?thesis by simp
  qed
qed

lemma all_nth_not_Running:
  assumes "\<forall>i < length bs. snd (bs ! i) \<noteq> Running"
  shows "running bs = 0"
  using assms by (fastforce simp: running_zero in_set_conv_nth)

lemma finish_all_returns:
  assumes "server_inv w s" "crash_inv w s" "pcs s t = Wait"
    and "\<forall>b \<in> set (branches s). snd (run_branch w (fst b)) = Returns"
  shows "pcs (run w s (map RunBranch [0..<length (branches s)] @ [RunCaller t, RunCaller t])) t
    = Returned"
proof -
  from assms(2,4) have nu: "\<forall>b \<in> set (branches s). snd b \<noteq> Unwinding"
    by (fastforce simp: crash_inv_def)
  with assms(2) have nc: "\<not> crashed s" by (auto simp: crash_inv_def)
  let ?s = "run w s (map RunBranch [0..<length (branches s)])"
  from finish_prefix [OF assms(1) nc nu assms(4), of "length (branches s)"]
  have f: "\<not> crashed ?s" "pcs ?s = pcs s" "mutex ?s = mutex s"
    "map fst (branches ?s) = map fst (branches s)"
    "\<forall>i < length (branches s). snd (branches ?s ! i) \<noteq> Running"
    by simp_all
  from f(4) have "length (branches ?s) = length (branches s)" by (metis length_map)
  with f(5) have "running (branches ?s) = 0" by (intro all_nth_not_Running) simp
  moreover have i: "server_inv w ?s" using assms(1) by (rule inv_run)
  ultimately have wg0: "wg ?s = 0" by (simp add: server_inv_def)
  from inv_holder [OF assms(1), of t] assms(3) have "mutex s = Some t" by simp
  with f have m: "mutex ?s = Some t" by simp
  from f assms(3) have p: "pcs ?s t = Wait" by simp
  from f(1) p wg0 m show ?thesis
    by (simp add: run_append) (simp add: run_def thread_step_def goto_def unlock_def)
qed

section \<open>After the shutdown nothing is started\<close>



section \<open>Progress: a call of Stop that runs alone\<close>

lemma gofuncs_loop:
  "\<not> crashed s \<Longrightarrow> pcs s t = GoFuncs fs \<Longrightarrow>
     \<not> crashed (run w s (replicate (length fs) (RunCaller t)))
     \<and> pcs (run w s (replicate (length fs) (RunCaller t))) t = GoFuncs []
     \<and> shutdownFuncs (run w s (replicate (length fs) (RunCaller t))) = shutdownFuncs s"
proof (induction fs arbitrary: s)
  case Nil
  then show ?case by (simp add: run_def)
next
  case (Cons f fs)
  let ?s = "thread_step w t s"
  from Cons.prems have a: "\<not> crashed ?s" "pcs ?s t = GoFuncs fs" "shutdownFuncs ?s = shutdownFuncs s"
    by (simp_all add: thread_step_def goto_def)
  from Cons.IH [OF a(1) a(2)] a(3) show ?case by (simp add: run_def)
qed

lemma stop_reaches_Wait:
  assumes "server_inv w s" "\<not> crashed s" "mutex s = None" "\<not> once_done s"
    and "pcs s t = Start" "prog w t = StopCall c"
  shows "\<not> crashed (run w s (replicate 4 (RunCaller t) @ replicate (length (shutdownFuncs s)) (RunCaller t) @ [RunCaller t]))
    \<and> pcs (run w s (replicate 4 (RunCaller t) @ replicate (length (shutdownFuncs s)) (RunCaller t) @ [RunCaller t])) t = Wait
    \<and> shutdownFuncs (run w s (replicate 4 (RunCaller t) @ replicate (length (shutdownFuncs s)) (RunCaller t) @ [RunCaller t])) = shutdownFuncs s"
proof -
  from assms(1,3,4) have f: "\<not> chan_closed s" by (auto simp: server_inv_def view_def)
  let ?s4 = "run w s (replicate 4 (RunCaller t))"
  have r4: "replicate 4 (RunCaller t) = [RunCaller t, RunCaller t, RunCaller t, RunCaller t]"
    by (simp add: numeral_eq_Suc)
  from assms f have s4: "\<not> crashed ?s4" "pcs ?s4 t = GoFuncs (shutdownFuncs s)"
    "shutdownFuncs ?s4 = shutdownFuncs s"
    unfolding r4 by (simp_all add: run_def thread_step_def goto_def lock_def)
  let ?s5 = "run w ?s4 (replicate (length (shutdownFuncs s)) (RunCaller t))"
  from gofuncs_loop [OF s4(1) s4(2), of w] s4(3)
  have s5: "\<not> crashed ?s5" "pcs ?s5 t = GoFuncs []" "shutdownFuncs ?s5 = shutdownFuncs s"
    by simp_all
  then have "\<not> crashed (thread_step w t ?s5) \<and> pcs (thread_step w t ?s5) t = Wait
    \<and> shutdownFuncs (thread_step w t ?s5) = shutdownFuncs s"
    by (simp add: thread_step_def goto_def)
  then show ?thesis by (simp add: run_append) (simp add: run_def)
qed

lemma stop_completes:
  assumes "server_inv w s" "crash_inv w s" "\<not> crashed s" "mutex s = None" "\<not> once_done s"
    and "pcs s t = Start" "prog w t = StopCall c"
    and "\<forall>f \<in> set (shutdownFuncs s). fn_run w f c = Returns"
    and "snd (run_branch w (Drain c)) = Returns"
  shows "pcs (run w s (stop_schedule t (length (shutdownFuncs s)))) t = Returned"
proof -
  let ?pre = "replicate 4 (RunCaller t) @ replicate (length (shutdownFuncs s)) (RunCaller t) @ [RunCaller t]"
  let ?s = "run w s ?pre"
  from stop_reaches_Wait [OF assms(1,3,4,5,6,7)]
  have a: "\<not> crashed ?s" "pcs ?s t = Wait" "shutdownFuncs ?s = shutdownFuncs s" by simp_all
  have i: "server_inv w ?s" using assms(1) by (rule inv_run)
  have c: "crash_inv w ?s" using assms(1,2) by (rule crash_inv_run)
  from inv_holder [OF i, of t] a(2,3) assms(7)
  have m: "map fst (branches ?s) = spawned c (shutdownFuncs s)" by (simp add: view_def)
  have len: "length (branches ?s) = Suc (length (shutdownFuncs s))"
    using arg_cong [OF m, of length] by (simp add: spawned_def)
  have "\<forall>b \<in> set (map fst (branches ?s)). snd (run_branch w b) = Returns"
    unfolding m using assms(8,9) by (auto simp: spawned_def)
  then have r: "\<forall>b \<in> set (branches ?s). snd (run_branch w (fst b)) = Returns" by simp
  from finish_all_returns [OF i c a(2) r] len
  have "pcs (run w ?s (map RunBranch [0..<Suc (length (shutdownFuncs s))] @ [RunCaller t, RunCaller t])) t = Returned"
    by simp
  then show ?thesis
    unfolding stop_schedule_def by (simp only: run_append append_assoc)
qed

lemma stop_after_done:
  assumes "\<not> crashed s" "mutex s = None" "once_done s" "pcs s t = Start" "prog w t = StopCall c"
  shows "pcs (run w s [RunCaller t, RunCaller t, RunCaller t]) t = Returned
    \<and> trace (run w s [RunCaller t, RunCaller t, RunCaller t]) = trace s
    \<and> branches (run w s [RunCaller t, RunCaller t, RunCaller t]) = branches s
    \<and> execs (run w s [RunCaller t, RunCaller t, RunCaller t]) = execs s"
  using assms by (simp add: run_def thread_step_def goto_def lock_def unlock_def)

lemma stop_blocked:
  assumes "mutex s \<noteq> None" "pcs s t = Start" "prog w t = StopCall c"
  shows "step w s (RunCaller t) = s"
  using assms by (auto simp: thread_step_def lock_def)

section \<open>Decimal numbers: parsing what was formatted\<close>

lemma digit_char_props:
  assumes "d < 10"
  shows "is_digit (digit_char d) \<and> digit_val (digit_char d) = d \<and> digit_char d \<noteq> CHR ''-''
    \<and> digit_char d \<noteq> CHR ''+''"
proof -
  from assms have "d \<in> {0, 1, 2, 3, 4, 5, 6, 7, 8, 9}" by auto
  then show ?thesis
    by (auto simp: digit_char_def is_digit_def digit_val_def)
qed

lemma dec_val_snoc: "dec_val (ds @ [c]) = dec_val ds * 10 + digit_val c"
  by (simp add: dec_val_def)

lemma nat_dec_roundtrip:
  "list_all is_digit (nat_dec n) \<and> dec_val (nat_dec n) = n \<and> nat_dec n \<noteq> []
   \<and> hd (nat_dec n) \<noteq> CHR ''-'' \<and> hd (nat_dec n) \<noteq> CHR ''+''"
proof (induction n rule: nat_dec.induct)
  case (1 n)
  show ?case
  proof (cases "n < 10")
    case True
    with digit_char_props [of n] show ?thesis
      by (simp add: nat_dec.simps [of n] dec_val_def)
  next
    case False
    have m: "n mod 10 < 10" by simp
    from False 1 digit_char_props [OF m] show ?thesis
      by (simp add: nat_dec.simps [of n] dec_val_snoc)
  qed
qed

lemma Atoi_fmt_d:
  assumes "- (2 ^ 63) \<le> i" "i \<le> 2 ^ 63 - 1"
  shows "Atoi (fmt_d i) = Some i"
proof (cases "i < 0")
  case True
  from nat_dec_roundtrip [of "nat (- i)"] True assms show ?thesis
    by (simp add: Atoi_def fmt_d_def)
next
  case False
  from nat_dec_roundtrip [of "nat i"]
  obtain c cs where cs: "nat_dec (nat i) = c # cs" by (cases "nat_dec (nat i)") auto
  with nat_dec_roundtrip [of "nat i"] False assms show ?thesis
    by (simp add: Atoi_def fmt_d_def)
qed

section \<open>What ended goroutines did is in the events\<close>

lemma trace_inv_new: "trace_inv w new_Server"
  by (simp add: trace_inv_def new_Server_def)

lemma trace_inv_thread_step:
  assumes "server_inv w s" "trace_inv w s"
  shows "trace_inv w (thread_step w t s)"
proof (cases "crashed s")
  case True
  with assms show ?thesis by (simp add: inv_crashed)
next
  case False
  show ?thesis
  proof (cases "in_crit (pcs s t)")
    case True
    with assms inv_holder [of w s t]
    have h: "mutex s = Some t" "holder_ok w (view s) t (pcs s t)" by simp_all
    show ?thesis
    proof (cases "pcs s t")
      case (GoFuncs rest)
      with h have "map fst (branches s) @ map (\<lambda>f. Part f (stop_ctx (prog w t))) rest
        = spawned (stop_ctx (prog w t)) (shutdownFuncs s)" by (simp add: view_def)
      then have ne: "branches s \<noteq> []" by (cases "branches s"; cases rest) (auto simp: spawned_def)
      with assms False GoFuncs show ?thesis
        by (cases rest) (auto simp: trace_inv_def thread_step_def goto_def)
    qed (use assms False h in \<open>auto simp: trace_inv_def thread_step_def goto_def unlock_def view_def
          split: call.splits\<close>)
  next
    case False
    with assms \<open>\<not> crashed s\<close> show ?thesis
      by (cases "pcs s t")
        (auto simp: trace_inv_def thread_step_def goto_def lock_def
          split: call.splits option.splits)
  qed
qed

lemma fst_hd_map: "xs \<noteq> [] \<Longrightarrow> fst (hd xs) = hd (map fst xs)"
  by (cases xs) simp_all

lemma trace_inv_branch_step:
  assumes "trace_inv w s"
  shows "trace_inv w (branch_step w j s)"
proof (cases "crashed s \<or> length (branches s) \<le> j")
  case True
  with assms show ?thesis by (simp add: branch_step_def)
next
  case False
  then have j: "j < length (branches s)" by simp
  obtain b st where bj: "branches s ! j = (b, st)" by (cases "branches s ! j")
  obtain evs out where rb: "run_branch w b = (evs, out)" by (cases "run_branch w b")
  let ?bs = "(branches s)[j := (b, after out)]"
  have sub: "set (fst (run_branch w b')) \<subseteq> set (trace s @ evs)"
    if "(b', st') \<in> set ?bs" "st' \<noteq> Running" for b' st'
  proof -
    from that(1) have "(b', st') = (b, after out) \<or> (b', st') \<in> set (branches s)"
      using set_update_subset_insert [of "branches s" j "(b, after out)"] by auto
    then show ?thesis
    proof
      assume "(b', st') = (b, after out)"
      with rb show ?thesis by auto
    next
      assume "(b', st') \<in> set (branches s)"
      with assms that(2) show ?thesis by (auto simp: trace_inv_def)
    qed
  qed
  from j have ne: "?bs \<noteq> []" "branches s \<noteq> []" by auto
  from j bj have mf: "map fst ?bs = map fst (branches s)" by (intro map_fst_update) simp_all
  have "fst (hd ?bs) = hd (map fst ?bs)" using ne(1) by (rule fst_hd_map)
  also have "\<dots> = hd (map fst (branches s))" by (simp only: mf)
  also have "\<dots> = fst (hd (branches s))" using ne(2) by (rule fst_hd_map [symmetric])
  finally have hd: "fst (hd ?bs) = fst (hd (branches s))" "?bs \<noteq> []" using ne by simp_all
  have old: "set (fst (run_branch w b')) \<subseteq> set (trace s @ evs)"
    if "(b', st') \<in> set (branches s)" "st' \<noteq> Running" for b' st'
    using assms that by (auto simp: trace_inv_def)
  from False bj rb assms sub hd old show ?thesis
    by (cases st) (auto simp: branch_step_def trace_inv_def)
qed

lemma trace_inv_run: "server_inv w s \<Longrightarrow> trace_inv w s \<Longrightarrow> trace_inv w (run w s sched)"
  unfolding run_def
proof (induction sched arbitrary: s)
  case Nil
  then show ?case by simp
next
  case (Cons c sched)
  from Cons.prems have a: "server_inv w (step w s c)" by (simp add: inv_step)
  from Cons.prems have b: "trace_inv w (step w s c)"
    by (cases c) (simp_all add: trace_inv_thread_step trace_inv_branch_step)
  from a b Cons.IH show ?case by simp
qed

lemma trace_inv_reachable: "trace_inv w (run w new_Server sched)"
  by (simp add: trace_inv_run inv_new trace_inv_new)

section \<open>The serve goroutine running Stop\<close>

lemma execs_step: "t \<in> set (execs s) \<Longrightarrow> t \<in> set (execs (step w s c))"
  by (cases c)
    (auto simp: thread_step_def branch_step_def goto_def lock_def unlock_def
      split: pc.splits call.splits option.splits list.splits prod.splits status.splits)

lemma execs_run: "t \<in> set (execs s) \<Longrightarrow> t \<in> set (execs (run w s sched))"
  unfolding run_def by (induction sched arbitrary: s) (simp_all add: execs_step)

lemma stoplock_reaches_Wait:
  assumes "server_inv w s" "\<not> crashed s" "mutex s = None" "\<not> once_done s"
    and "pcs s t = StopLock"
  shows "\<not> crashed (run w s (replicate 4 (RunCaller t) @ replicate (length (shutdownFuncs s)) (RunCaller t) @ [RunCaller t]))
    \<and> pcs (run w s (replicate 4 (RunCaller t) @ replicate (length (shutdownFuncs s)) (RunCaller t) @ [RunCaller t])) t = Wait
    \<and> shutdownFuncs (run w s (replicate 4 (RunCaller t) @ replicate (length (shutdownFuncs s)) (RunCaller t) @ [RunCaller t])) = shutdownFuncs s"
proof -
  from assms(1,3,4) have f: "\<not> chan_closed s" by (auto simp: server_inv_def view_def)
  let ?s4 = "run w s (replicate 4 (RunCaller t))"
  have r4: "replicate 4 (RunCaller t) = [RunCaller t, RunCaller t, RunCaller t, RunCaller t]"
    by (simp add: numeral_eq_Suc)
  from assms f have s4: "\<not> crashed ?s4" "pcs ?s4 t = GoFuncs (shutdownFuncs s)"
    "shutdownFuncs ?s4 = shutdownFuncs s"
    unfolding r4 by (simp_all add: run_def thread_step_def goto_def lock_def)
  let ?s5 = "run w ?s4 (replicate (length (shutdownFuncs s)) (RunCaller t))"
  from gofuncs_loop [OF s4(1) s4(2), of w] s4(3)
  have s5: "\<not> crashed ?s5" "pcs ?s5 t = GoFuncs []" "shutdownFuncs ?s5 = shutdownFuncs s"
    by simp_all
  then have "\<not> crashed (thread_step w t ?s5) \<and> pcs (thread_step w t ?s5) t = Wait
    \<and> shutdownFuncs (thread_step w t ?s5) = shutdownFuncs s"
    by (simp add: thread_step_def goto_def)
  then show ?thesis by (simp add: run_append) (simp add: run_def)
qed

lemma serve_completes:
  assumes "server_inv w s" "crash_inv w s" "\<not> crashed s" "mutex s = None" "\<not> once_done s"
    and "pcs s t = Start" "prog w t = ServeLoop err" "fatal_serve_error err"
    and "\<forall>f \<in> set (shutdownFuncs s). fn_run w f canceled_ctx = Returns"
    and "snd (run_branch w (Drain canceled_ctx)) = Returns"
  shows "pcs (run w s (serve_stop_schedule t (length (shutdownFuncs s)))) t = Returned
    \<and> t \<in> set (execs (run w s (serve_stop_schedule t (length (shutdownFuncs s)))))"
proof -
  let ?s1 = "thread_step w t s"
  from assms have s1: "\<not> crashed ?s1" "mutex ?s1 = None" "\<not> once_done ?s1" "pcs ?s1 t = StopLock"
    "shutdownFuncs ?s1 = shutdownFuncs s"
    by (simp_all add: thread_step_def goto_def)
  have i1: "server_inv w ?s1" using assms(1) by (rule inv_thread_step)
  have c1: "crash_inv w ?s1" using assms(1,2) by (rule crash_inv_thread_step)
  let ?pre = "replicate 4 (RunCaller t) @ replicate (length (shutdownFuncs s)) (RunCaller t) @ [RunCaller t]"
  let ?s = "run w ?s1 ?pre"
  from stoplock_reaches_Wait [OF i1 s1(1,2,3,4)] s1(5)
  have a: "\<not> crashed ?s" "pcs ?s t = Wait" "shutdownFuncs ?s = shutdownFuncs s" by simp_all
  have i: "server_inv w ?s" using i1 by (rule inv_run)
  have c: "crash_inv w ?s" using i1 c1 by (rule crash_inv_run)
  from inv_holder [OF i, of t] a(2,3) assms(7)
  have m: "map fst (branches ?s) = spawned canceled_ctx (shutdownFuncs s)" "execs ?s = [t]"
    by (simp_all add: view_def)
  have len: "length (branches ?s) = Suc (length (shutdownFuncs s))"
    using arg_cong [OF m(1), of length] by (simp add: spawned_def)
  have "\<forall>b \<in> set (map fst (branches ?s)). snd (run_branch w b) = Returns"
    unfolding m using assms(9,10) by (auto simp: spawned_def)
  then have r: "\<forall>b \<in> set (branches ?s). snd (run_branch w (fst b)) = Returns" by simp
  let ?post = "map RunBranch [0..<Suc (length (shutdownFuncs s))] @ [RunCaller t, RunCaller t]"
  from finish_all_returns [OF i c a(2) r] len
  have fin: "pcs (run w ?s ?post) t = Returned" by simp
  from m(2) have "t \<in> set (execs ?s)" by simp
  then have ex: "t \<in> set (execs (run w ?s ?post))" by (rule execs_run)
  have eq: "run w s (serve_stop_schedule t (length (shutdownFuncs s))) = run w ?s ?post"
    unfolding serve_stop_schedule_def stop_schedule_def
    by (simp only: run_append append_assoc) (simp add: run_def)
  from fin ex eq show ?thesis by simp
qed

lemma serve_after_done:
  assumes "\<not> crashed s" "mutex s = None" "once_done s" "pcs s t = StopLock"
  shows "pcs (run w s [RunCaller t, RunCaller t, RunCaller t]) t = Returned
    \<and> trace (run w s [RunCaller t, RunCaller t, RunCaller t]) = trace s
    \<and> branches (run w s [RunCaller t, RunCaller t, RunCaller t]) = branches s
    \<and> execs (run w s [RunCaller t, RunCaller t, RunCaller t]) = execs s"
  using assms by (simp add: run_def thread_step_def goto_def lock_def unlock_def)

lemma SrvShutdown_in_drain: "SrvShutdown c \<in> set (fst (run_branch w (Drain c)))"
  by (simp add: drain_body_def split: option.splits)

lemma SrvClose_in_drain:
  "srv_Shutdown w c \<noteq> None \<Longrightarrow> SrvClose \<in> set (fst (run_branch w (Drain c)))"
  by (auto simp: drain_body_def split: option.splits)

lemma returned_drain_in_trace:
  assumes "server_inv w s" "ctx_inv w s" "trace_inv w s"
    and "t \<in> set (execs s)" "once_done s"
  shows "SrvShutdown (stop_ctx (prog w t)) \<in> set (trace s)
    \<and> (srv_Shutdown w (stop_ctx (prog w t)) \<noteq> None \<longrightarrow> SrvClose \<in> set (trace s))"
proof -
  from inv_once_done [OF assms(1,5)]
  have ne: "branches s \<noteq> []" and r0: "running (branches s) = 0" by (simp_all add: view_def)
  obtain b st where h: "hd (branches s) = (b, st)" by (cases "hd (branches s)")
  from ne h have mem: "(b, st) \<in> set (branches s)" by (metis hd_in_set)
  with r0 have nr: "st \<noteq> Running" by (auto simp: running_zero)
  from assms(3) ne h obtain c where c: "b = Drain c" by (auto simp: trace_inv_def)
  from assms(2,4) mem c have cc: "c = stop_ctx (prog w t)" by (fastforce simp: ctx_inv_def)
  from assms(3) mem nr have sub: "set (fst (run_branch w b)) \<subseteq> set (trace s)"
    by (auto simp: trace_inv_def)
  from sub c cc SrvShutdown_in_drain [of c w] SrvClose_in_drain [of w c] show ?thesis by auto
qed

lemma returned_invoked:
  assumes "server_inv w s" "trace_inv w s" "once_done s" "(Part f c, st) \<in> set (branches s)"
  shows "Invoke f c \<in> set (trace s)"
proof -
  from inv_once_done [OF assms(1,3)] have "running (branches s) = 0" by (simp add: view_def)
  with assms(4) have "st \<noteq> Running" by (auto simp: running_zero)
  with assms(2,4) have "set (fst (run_branch w (Part f c))) \<subseteq> set (trace s)"
    by (auto simp: trace_inv_def)
  then show ?thesis by simp
qed

text \<open>The schedule of a serve goroutine that runs \<^verbatim>\<open>Stop\<close> alone, with no registered function.\<close>

lemma serve_stop_schedule_0:
  "serve_stop_schedule t 0 = [RunCaller t, RunCaller t, RunCaller t, RunCaller t, RunCaller t,
     RunCaller t, RunBranch 0, RunCaller t, RunCaller t]"
  by (simp add: serve_stop_schedule_def stop_schedule_def numeral_eq_Suc)

chapter \<open>The claims\<close>

section \<open>Composition order\<close>

text \<open>
  C5. For every terminal handler \<open>T\<close> and stages \<open>A\<close> then \<open>B\<close> added in that order with
  \<open>Filter\<close>, the composed pipeline runs the pre-processing of \<open>B\<close>, then that of \<open>A\<close>,
  then \<open>T\<close>, then the post-processing of \<open>A\<close>, then that of \<open>B\<close>: the stage registered
  last is outermost. The effect state after the request is
  \<open>postB (postA (effects of T on (preA (preB \<sigma>))))\<close>, the handler sees the request
  rewritten first by \<open>B\<close> and then by \<open>A\<close>, and the response is rewritten first by \<open>A\<close>
  and then by \<open>B\<close>; with logging stages the log reads \<open>B-pre, A-pre, T, A-post, B-post\<close>.
\<close>

theorem Filter_composition_order:
  "Filter (Filter T (stage preA qA postA rA)) (stage preB qB postB rB) req \<sigma> =
     (rB (rA (fst (T (qA (qB req)) (preA (preB \<sigma>))))),
      postB (postA (snd (T (qA (qB req)) (preA (preB \<sigma>))))))
   \<and> Filter (Filter (logging_handler t h) (logging_stage a1 a2)) (logging_stage b1 b2) req \<sigma>0 =
     (h req, \<sigma>0 @ [b1, a1, t, a2, b2])
   \<and> Filter (Filter T A) B req = B req (\<lambda>q. A q T)"
  by (simp add: Filter_def stage_def logging_stage_def logging_handler_def split: prod.splits)

section \<open>The HSTS header\<close>

text \<open>The name of the header is in canonical form.\<close>

lemma hsts_key_canonical:
  "CanonicalMIMEHeaderKey ''Strict-Transport-Security'' = ''Strict-Transport-Security''"
  by (simp add: CanonicalMIMEHeaderKey_def validHeaderFieldByte_def is_lower_def is_upper_def
      is_digit_def Let_def)

text \<open>
  C10 as stated fails for two downstream services: one whose response embeds no
  \<^verbatim>\<open>*http.Response\<close>, and one whose response has a nil header. The downstream service
  returns its response, and the filter panics instead of returning it: reading \<open>Header\<close>
  through the nil pointer in the first case, assigning into the nil map in the second.
\<close>

theorem HSTSFilter_nil_header_counterexample:
  "fst (Filter nil_response_service (HSTSFilter HSTSDefaultMaxAge) () ()) = Inl NilPointerDereference
   \<and> fst (nil_response_service () ()) = Inr \<lparr>Response_ptr = None\<rparr>
   \<and> fst (Filter nil_header_service (HSTSFilter HSTSDefaultMaxAge) () ()) = Inl AssignmentToNilMap
   \<and> fst (nil_header_service () ()) = Inr \<lparr>Response_ptr = Some \<lparr>Header = None\<rparr>\<rparr>"
  by (simp add: Filter_def HSTSFilter_def Header_Set_def nil_response_service_def
      nil_header_service_def)

text \<open>
  C10, as the code has it. The filter calls the downstream service on the request it was
  given and with the effects it was given. When the response embeds an
  \<^verbatim>\<open>*http.Response\<close> whose header is not nil, the filter returns that response with the
  single value \<open>max-age=N; includeSubDomains\<close>, \<open>N\<close> the decimal form of \<open>maxAge\<close>, stored under
  \<open>Strict-Transport-Security\<close>, every other header, every other part of the response and
  the effects of the downstream service unchanged. When the header is nil or no
  \<^verbatim>\<open>*http.Response\<close> is embedded the filter panics, and a panic of the downstream service
  goes through. The number in the value reads back as \<open>maxAge\<close>, and for the default
  age the value is \<open>max-age=63072000; includeSubDomains\<close>.
\<close>

theorem HSTSFilter_sets_header:
  "svc req \<sigma> = (x, \<sigma>') \<Longrightarrow>
     (\<forall>response r h. x = Inr response \<and> Response_ptr response = Some r \<and> Header r = Some h \<longrightarrow>
        Filter svc (HSTSFilter maxAge) req \<sigma> =
          (Inr (response\<lparr>Response_ptr := Some (r\<lparr>Header := Some (h(''Strict-Transport-Security'' \<mapsto>
             [''max-age='' @ fmt_d (sint maxAge) @ ''; includeSubDomains'']))\<rparr>)\<rparr>), \<sigma>'))
   \<and> (\<forall>response r. x = Inr response \<and> Response_ptr response = Some r \<and> Header r = None \<longrightarrow>
        Filter svc (HSTSFilter maxAge) req \<sigma> = (Inl AssignmentToNilMap, \<sigma>'))
   \<and> (\<forall>response. x = Inr response \<and> Response_ptr response = None \<longrightarrow>
        Filter svc (HSTSFilter maxAge) req \<sigma> = (Inl NilPointerDereference, \<sigma>'))
   \<and> (\<forall>p. x = Inl p \<longrightarrow> Filter svc (HSTSFilter maxAge) req \<sigma> = (Inl p, \<sigma>'))
   \<and> Atoi (fmt_d (sint maxAge)) = Some (sint maxAge)
   \<and> ''max-age='' @ fmt_d (sint HSTSDefaultMaxAge) @ ''; includeSubDomains'' =
       ''max-age=63072000; includeSubDomains''"
proof -
  assume s: "svc req \<sigma> = (x, \<sigma>')"
  have "- (2 ^ 63) \<le> sint maxAge" "sint maxAge \<le> 2 ^ 63 - 1"
    using sint_ge [of maxAge] sint_lt [of maxAge] by simp_all
  then have "Atoi (fmt_d (sint maxAge)) = Some (sint maxAge)" by (rule Atoi_fmt_d)
  moreover have "fmt_d (sint HSTSDefaultMaxAge) = ''63072000''"
    by (simp add: HSTSDefaultMaxAge_def fmt_d_def nat_dec.simps digit_char_def)
  ultimately show ?thesis using s
    by (simp add: Filter_def HSTSFilter_def Header_Set_def hsts_key_canonical)
qed

text \<open>
  In the example the downstream service answers with a content type; the filter adds
  the header and keeps the content type.
\<close>

theorem HSTSFilter_sets_header_witness:
  "pong_service () () =
     (Inr \<lparr>Response_ptr = Some \<lparr>Header = Some [''Content-Type'' \<mapsto> [''text/plain'']]\<rparr>\<rparr>, ())
   \<and> Filter pong_service (HSTSFilter HSTSDefaultMaxAge) () () =
     (Inr \<lparr>Response_ptr = Some \<lparr>Header = Some [''Content-Type'' \<mapsto> [''text/plain''],
        ''Strict-Transport-Security'' \<mapsto> [''max-age=63072000; includeSubDomains'']]\<rparr>\<rparr>, ())"
proof -
  have p: "pong_service () () =
     (Inr \<lparr>Response_ptr = Some \<lparr>Header = Some [''Content-Type'' \<mapsto> [''text/plain'']]\<rparr>\<rparr>, ())"
    by (simp add: pong_service_def)
  from HSTSFilter_sets_header [where svc = pong_service and req = "()" and \<sigma> = "()"
      and \<sigma>' = "()" and maxAge = HSTSDefaultMaxAge, OF p] p
  show ?thesis by simp
qed

section \<open>The default TLS configuration\<close>

text \<open>
  C9. Called with a nil TLS configuration, \<open>ServeTLS\<close> builds the server with the
  default configuration: minimum version TLS 1.2 (\<open>0x0303\<close>), the server's cipher-suite
  order preferred, the curves P-521, P-384, P-256, and the four listed cipher suites;
  with any configuration the \<open>TLSNextProto\<close> map is empty and not nil; a configuration
  that is supplied is used as it is; and the server \<open>ListenTLS\<close> returns is the one
  \<open>ServeTLS\<close> builds from the configuration \<open>ListenTLS\<close> was given.
\<close>

theorem ServeTLS_default_config:
  "TLSConfig (Server_srv (fst (ServeTLS HttpHandler self svc l certFile keyFile None))) =
     Some \<lparr>MinVersion = VersionTLS12,
           CurvePreferences = [CurveP521, CurveP384, CurveP256],
           PreferServerCipherSuites = True,
           CipherSuites = [TLS_ECDHE_RSA_WITH_AES_256_GCM_SHA384,
                           TLS_ECDHE_RSA_WITH_AES_256_CBC_SHA,
                           TLS_RSA_WITH_AES_256_GCM_SHA384,
                           TLS_RSA_WITH_AES_256_CBC_SHA]\<rparr>
   \<and> TLSNextProto (Server_srv (fst (ServeTLS HttpHandler self svc l certFile keyFile cfg))) =
       Some Map.empty
   \<and> TLSConfig (Server_srv (fst (ServeTLS HttpHandler self svc l certFile keyFile (Some c)))) =
       Some c
   \<and> ListenTLS ResolveTCPAddr ListenTCP HttpHandler self env svc addr certFile keyFile cfg =
       (case ResolveTCPAddr (Listen_addr env addr) of
          Inl err \<Rightarrow> Inl err
        | Inr tcpAddr \<Rightarrow>
            (case ListenTCP tcpAddr of
               Inl err \<Rightarrow> Inl err
             | Inr l \<Rightarrow> Inr (fst (ServeTLS HttpHandler self svc l certFile keyFile cfg))))
   \<and> VersionTLS12 = 0x0303"
  by (simp add: ServeTLS_def ServeTLS_srv_def ServeTLS_cfg_def ListenTLS_def VersionTLS12_def)

section \<open>The address to bind\<close>

lemma Listen_addr_precedence:
  "addr \<noteq> [] \<Longrightarrow> Listen_addr env addr = addr"
  "env ''LISTEN_ADDR'' = Some a \<Longrightarrow> a \<noteq> [] \<Longrightarrow> Listen_addr env [] = a"
  "Getenv env ''LISTEN_ADDR'' = [] \<Longrightarrow> Atoi (Getenv env ''PORT'') = Some p \<Longrightarrow> 0 \<le> p \<Longrightarrow>
     Listen_addr env [] = '':'' @ fmt_d p"
  "Getenv env ''LISTEN_ADDR'' = [] \<Longrightarrow> Atoi (Getenv env ''PORT'') = None \<Longrightarrow>
     Listen_addr env [] = '':0''"
  "Getenv env ''LISTEN_ADDR'' = [] \<Longrightarrow> Atoi (Getenv env ''PORT'') = Some p \<Longrightarrow> p < 0 \<Longrightarrow>
     Listen_addr env [] = '':0''"
  "Getenv env ''LISTEN_ADDR'' = [] \<Longrightarrow> Getenv env ''PORT'' = fmt_d p \<Longrightarrow> 0 \<le> p \<Longrightarrow>
     p \<le> 2 ^ 63 - 1 \<Longrightarrow> Listen_addr env [] = '':'' @ Getenv env ''PORT''"
  by (simp_all add: Listen_addr_def Getenv_def Atoi_fmt_d)

text \<open>
  C6 (the code departs from the claim and from its own comment). With no address
  argument and neither \<open>LISTEN_ADDR\<close> nor \<open>PORT\<close> set, \<open>Listen\<close> binds \<open>:0\<close>. That is the
  address it binds for \<open>PORT=0\<close>, of the form \<open>:PORT\<close> that listens on all interfaces:
  its host is empty, not a loopback host. \<open>Listen\<close> then does what it does when called
  with the address \<open>:0\<close>.
\<close>

theorem Listen_fallback_all_interfaces:
  "Listen_addr Map.empty [] = '':0''
   \<and> Listen_addr [''PORT'' \<mapsto> ''0''] [] = Listen_addr Map.empty []
   \<and> addr_host (Listen_addr Map.empty []) = []
   \<and> addr_host ''127.0.0.1:0'' = ''127.0.0.1''
   \<and> Listen ResolveTCPAddr ListenTCP HttpHandler self Map.empty svc [] =
       Listen ResolveTCPAddr ListenTCP HttpHandler self Map.empty svc '':0''"
  by (simp add: Listen_addr_def Getenv_def Atoi_def is_digit_def dec_val_def digit_val_def
      fmt_d_def nat_dec.simps digit_char_def addr_host_def Listen_def)

text \<open>
  C8 (the code departs from the claim). With no path argument and \<open>LISTEN_PATH\<close> not
  set, \<open>ListenUnix\<close> binds the name of the temporary directory itself, not a path under
  that directory.
\<close>

theorem ListenUnix_fallback_is_TempDir:
  "ListenUnix_path Map.empty TempDir [] = TempDir
   \<and> \<not> path_under TempDir (ListenUnix_path Map.empty TempDir [])
   \<and> ListenUnix_path Map.empty ''/tmp'' [] = ''/tmp''"
  by (simp add: ListenUnix_path_def Getenv_def path_under_def)

lemma ListenUnix_path_precedence:
  "path \<noteq> [] \<Longrightarrow> ListenUnix_path env TempDir path = path"
  "env ''LISTEN_PATH'' = Some a \<Longrightarrow> a \<noteq> [] \<Longrightarrow> ListenUnix_path env TempDir [] = a"
  by (simp_all add: ListenUnix_path_def Getenv_def)

section \<open>Exactly-once shutdown\<close>

text \<open>
  C1. In every state \<open>s\<close> that a server reaches from \<open>new_Server\<close>, under every schedule
  of every number of callers: at most one call has entered the function given to
  \<open>shutdownOnce.Do\<close>, and it is a call of \<open>Stop\<close>; the channel returned by \<open>Done\<close> has been
  closed at most once, is closed exactly when that has happened, and stays closed in
  every later state; it is closed before any goroutine of the shutdown is started; a
  call of \<open>Stop\<close> that has returned finds the once done, by exactly one execution, with no
  goroutine of the shutdown still running; a call of \<open>Stop\<close> does not move while another
  goroutine holds the mutex; and a call made after the shutdown has run returns in
  three steps of its own without closing, starting or logging anything.
\<close>

theorem Stop_exactly_once:
  "s = run w new_Server sched \<Longrightarrow>
     length (execs s) \<le> 1
   \<and> (\<forall>t \<in> set (execs s). stop_like (prog w t))
   \<and> count_list (trace s) Closed \<le> 1
   \<and> (Done s \<longleftrightarrow> count_list (trace s) Closed = 1)
   \<and> (Done s \<longrightarrow> Done (run w s sched'))
   \<and> (branches s \<noteq> [] \<longrightarrow> Done s)
   \<and> (\<forall>t. stop_like (prog w t) \<and> pcs s t = Returned \<longrightarrow>
         once_done s \<and> length (execs s) = 1 \<and> running (branches s) = 0)
   \<and> (\<forall>t c. mutex s \<noteq> None \<and> pcs s t = Start \<and> prog w t = StopCall c \<longrightarrow>
         step w s (RunCaller t) = s)
   \<and> (\<forall>t c. once_done s \<and> mutex s = None \<and> \<not> crashed s \<and> pcs s t = Start
           \<and> prog w t = StopCall c \<longrightarrow>
         pcs (run w s [RunCaller t, RunCaller t, RunCaller t]) t = Returned
         \<and> trace (run w s [RunCaller t, RunCaller t, RunCaller t]) = trace s
         \<and> branches (run w s [RunCaller t, RunCaller t, RunCaller t]) = branches s
         \<and> execs (run w s [RunCaller t, RunCaller t, RunCaller t]) = execs s)"
proof -
  assume s: "s = run w new_Server sched"
  then have i: "server_inv w s" by (simp add: inv_reachable)
  have r: "once_done s \<and> length (execs s) = 1 \<and> running (branches s) = 0"
    if "stop_like (prog w t) \<and> pcs s t = Returned" for t
  proof -
    from i that have "once_done s" by (auto simp: server_inv_def)
    with inv_once_done [OF i] show ?thesis by (simp add: view_def)
  qed
  from i have e: "\<forall>t \<in> set (execs s). stop_like (prog w t)" by (simp add: server_inv_def)
  have b: "step w s (RunCaller t) = s"
    if "mutex s \<noteq> None \<and> pcs s t = Start \<and> prog w t = StopCall c" for t c
    using that stop_blocked [of s t w c] by simp
  have d: "pcs (run w s [RunCaller t, RunCaller t, RunCaller t]) t = Returned
         \<and> trace (run w s [RunCaller t, RunCaller t, RunCaller t]) = trace s
         \<and> branches (run w s [RunCaller t, RunCaller t, RunCaller t]) = branches s
         \<and> execs (run w s [RunCaller t, RunCaller t, RunCaller t]) = execs s"
    if "once_done s \<and> mutex s = None \<and> \<not> crashed s \<and> pcs s t = Start \<and> prog w t = StopCall c"
    for t c
    using that stop_after_done [of s t w c] by simp
  from inv_summary [OF i] have f: "length (execs s) \<le> 1" "count_list (trace s) Closed \<le> 1"
    "Done s \<longleftrightarrow> count_list (trace s) Closed = 1" "branches s \<noteq> [] \<longrightarrow> Done s"
    by (auto simp: Done_def)
  have g: "Done s \<longrightarrow> Done (run w s sched')" by (simp add: Done_def chan_closed_run)
  from f g e r b d show ?thesis by blast
qed

text \<open>
  The example: after a registration, caller 1 runs the shutdown and returns; caller 2,
  calling afterwards, returns too, and the once has been run by caller 1 alone. So it is
  when the two calls interleave and caller 2 has to wait for the mutex.
\<close>

theorem Stop_exactly_once_witness:
  "stop_like (prog example_world 1) \<and> pcs (run example_world new_Server example_done) 1 = Returned
   \<and> once_done (run example_world new_Server example_done)
   \<and> length (execs (run example_world new_Server example_done)) = 1
   \<and> running (branches (run example_world new_Server example_done)) = 0
   \<and> Done (run example_world new_Server example_done)
   \<and> mutex (run example_world new_Server example_done) = None
   \<and> pcs (run example_world new_Server example_done) 2 = Start
   \<and> prog example_world 2 = StopCall (Ctx 2 False)
   \<and> pcs (run example_world (run example_world new_Server example_done)
        [RunCaller 2, RunCaller 2, RunCaller 2]) 2 = Returned
   \<and> execs (run example_world (run example_world new_Server example_done)
        [RunCaller 2, RunCaller 2, RunCaller 2]) = execs (run example_world new_Server example_done)
   \<and> pcs (run example_world new_Server example_schedule) 1 = Returned
   \<and> pcs (run example_world new_Server example_schedule) 2 = Returned
   \<and> length (execs (run example_world new_Server example_schedule)) = 1"
proof -
  let ?s = "run example_world new_Server example_done"
  let ?u = "run example_world new_Server example_schedule"
  have p: "stop_like (prog example_world 1)" "prog example_world 2 = StopCall (Ctx 2 False)"
    by (simp_all add: example_world_def)
  have r: "pcs ?s 1 = Returned" "branches ?s \<noteq> []" "mutex ?s = None" "pcs ?s 2 = Start"
    "\<not> crashed ?s"
    by (simp_all add: step_simps example_world_def example_done_def example_launch_def)
  from Stop_exactly_once [OF refl, of example_world example_done "[]"] p r
  have first: "once_done ?s \<and> length (execs ?s) = 1 \<and> running (branches ?s) = 0 \<and> Done ?s
    \<and> pcs (run example_world ?s [RunCaller 2, RunCaller 2, RunCaller 2]) 2 = Returned
    \<and> execs (run example_world ?s [RunCaller 2, RunCaller 2, RunCaller 2]) = execs ?s"
    by blast
  have q: "pcs ?u 1 = Returned" "pcs ?u 2 = Returned"
    by (simp_all add: step_simps example_world_def example_schedule_def)
  from Stop_exactly_once [OF refl, of example_world example_schedule "[]"] p(1) q(1)
  have "length (execs ?u) = 1" by blast
  with first p r q show ?thesis by simp
qed

section \<open>Launching the goroutines of the shutdown and waiting for them\<close>

text \<open>
  C2, as the code has it. In every state \<open>s\<close> a server reaches: a caller that waits at
  \<open>wg.Wait()\<close> is the one caller that runs the shutdown and has started the drain and
  exactly one goroutine per registered function, in the order of the list; every
  goroutine of the shutdown carries the context of that caller; a call of \<open>Stop\<close> that has
  returned finds every goroutine of the shutdown ended; when the drain and the
  registered functions all return, the process has not been ended, letting every
  goroutine finish lets the waiting caller return, and a call of \<open>Stop\<close> that starts with
  the mutex free returns under the schedule that lets it run alone; a goroutine that
  panicked ends the process with its next step, and only a goroutine whose body panics
  is in that state. The step of a goroutine that is to run a registered function \<open>f\<close>
  invokes \<open>f\<close> with the context, once: when \<open>f\<close> returns the goroutine has ended and the
  process goes on; when \<open>f\<close> panics the goroutine unwinds and its next step ends the
  process. And when a call of \<open>Stop\<close> has returned, every function a goroutine was
  started for has been invoked with the context of that goroutine.
\<close>

theorem Stop_launches_and_waits:
  "s = run w new_Server sched \<Longrightarrow>
     (\<forall>t. pcs s t = Wait \<longrightarrow>
        map fst (branches s) = spawned (stop_ctx (prog w t)) (shutdownFuncs s) \<and> execs s = [t])
   \<and> (\<forall>t b. t \<in> set (execs s) \<and> b \<in> set (branches s) \<longrightarrow>
        branch_ctx (fst b) = stop_ctx (prog w t))
   \<and> (\<forall>t. stop_like (prog w t) \<and> pcs s t = Returned \<longrightarrow>
        branches s \<noteq> [] \<and> (\<forall>b \<in> set (branches s). snd b \<noteq> Running))
   \<and> ((\<forall>b \<in> set (branches s). snd (run_branch w (fst b)) = Returns) \<longrightarrow>
        \<not> crashed s
        \<and> (\<forall>t. pcs s t = Wait \<longrightarrow>
             pcs (run w s (map RunBranch [0..<length (branches s)] @ [RunCaller t, RunCaller t])) t
               = Returned))
   \<and> (\<forall>t c. mutex s = None \<and> \<not> once_done s \<and> pcs s t = Start \<and> prog w t = StopCall c
          \<and> (\<forall>f \<in> set (shutdownFuncs s). fn_run w f c = Returns)
          \<and> snd (run_branch w (Drain c)) = Returns \<longrightarrow>
        pcs (run w s (stop_schedule t (length (shutdownFuncs s)))) t = Returned)
   \<and> (\<forall>j b. j < length (branches s) \<and> branches s ! j = (b, Unwinding) \<longrightarrow>
        crashed (step w s (RunBranch j)))
   \<and> (\<forall>b. (b, Unwinding) \<in> set (branches s) \<longrightarrow> snd (run_branch w b) = Panics)
   \<and> (\<forall>j f c. \<not> crashed s \<and> j < length (branches s) \<and> branches s ! j = (Part f c, Running) \<longrightarrow>
        trace (step w s (RunBranch j)) = trace s @ [Invoke f c]
        \<and> (fn_run w f c = Returns \<longrightarrow>
             branches (step w s (RunBranch j)) ! j = (Part f c, Finished)
             \<and> \<not> crashed (step w s (RunBranch j)))
        \<and> (fn_run w f c = Panics \<longrightarrow>
             branches (step w s (RunBranch j)) ! j = (Part f c, Unwinding)
             \<and> crashed (run w s [RunBranch j, RunBranch j])))
   \<and> (\<forall>t f c st. stop_like (prog w t) \<and> pcs s t = Returned \<and> (Part f c, st) \<in> set (branches s) \<longrightarrow>
        Invoke f c \<in> set (trace s))"
proof -
  assume s: "s = run w new_Server sched"
  then have i: "server_inv w s" and c: "crash_inv w s" and x: "ctx_inv w s"
    and tr: "trace_inv w s"
    by (simp_all add: inv_reachable crash_inv_reachable ctx_inv_reachable trace_inv_reachable)
  have a: "map fst (branches s) = spawned (stop_ctx (prog w t)) (shutdownFuncs s) \<and> execs s = [t]"
    if "pcs s t = Wait" for t
    using inv_holder [OF i, of t] that by (simp add: view_def)
  have od: "once_done s" if "stop_like (prog w t) \<and> pcs s t = Returned" for t
    using i that by (auto simp: server_inv_def)
  have b: "branches s \<noteq> [] \<and> (\<forall>b \<in> set (branches s). snd b \<noteq> Running)"
    if "stop_like (prog w t) \<and> pcs s t = Returned" for t
    using inv_once_done [OF i od [OF that]] by (simp add: view_def running_zero)
  have d: "\<not> crashed s" if "\<forall>b \<in> set (branches s). snd (run_branch w (fst b)) = Returns"
    using c that by (fastforce simp: crash_inv_def)
  have e: "crashed (step w s (RunBranch j))"
    if "j < length (branches s) \<and> branches s ! j = (b, Unwinding)" for j b
    using that by (simp add: branch_step_def)
  have g: "pcs (run w s (stop_schedule t (length (shutdownFuncs s)))) t = Returned"
    if h: "mutex s = None \<and> \<not> once_done s \<and> pcs s t = Start \<and> prog w t = StopCall c
          \<and> (\<forall>f \<in> set (shutdownFuncs s). fn_run w f c = Returns)
          \<and> snd (run_branch w (Drain c)) = Returns" for t c
  proof -
    from i h have "branches s = []" by (auto simp: server_inv_def view_def)
    with c have nc: "\<not> crashed s" by (auto simp: crash_inv_def)
    from h stop_completes [OF i c nc, of t c] show ?thesis by simp
  qed
  have k: "\<forall>t b. t \<in> set (execs s) \<and> b \<in> set (branches s) \<longrightarrow>
        branch_ctx (fst b) = stop_ctx (prog w t)"
    using x by (auto simp: ctx_inv_def)
  have l: "\<forall>b. (b, Unwinding) \<in> set (branches s) \<longrightarrow> snd (run_branch w b) = Panics"
    using c by (simp add: crash_inv_def)
  have m: "\<forall>t. pcs s t = Wait \<longrightarrow>
             pcs (run w s (map RunBranch [0..<length (branches s)] @ [RunCaller t, RunCaller t])) t
               = Returned"
    if "\<forall>b \<in> set (branches s). snd (run_branch w (fst b)) = Returns"
    using that finish_all_returns [OF i c] by simp
  have n: "trace (step w s (RunBranch j)) = trace s @ [Invoke f c]
        \<and> (fn_run w f c = Returns \<longrightarrow>
             branches (step w s (RunBranch j)) ! j = (Part f c, Finished)
             \<and> \<not> crashed (step w s (RunBranch j)))
        \<and> (fn_run w f c = Panics \<longrightarrow>
             branches (step w s (RunBranch j)) ! j = (Part f c, Unwinding)
             \<and> crashed (run w s [RunBranch j, RunBranch j]))"
    if h: "\<not> crashed s \<and> j < length (branches s) \<and> branches s ! j = (Part f c, Running)"
    for j f c
  proof -
    from h have "0 < running (branches s)" by (intro running_pos [of j]) simp_all
    with i have "wg s \<noteq> 0" by (simp add: server_inv_def)
    with h show ?thesis by (auto simp: branch_step_def run_def)
  qed
  have o: "Invoke f c \<in> set (trace s)"
    if "stop_like (prog w t) \<and> pcs s t = Returned \<and> (Part f c, st) \<in> set (branches s)"
    for t f c st
    using that od [of t] returned_invoked [OF i tr, of f c st] by simp
  from a b d e g k l m n o show ?thesis by blast
qed

text \<open>
  In the example, caller 1 waits after starting the drain and the one registered
  function with its context; the step of the second goroutine invokes the function,
  which returns; both goroutines end, and then caller 1 returns, the function invoked. A
  call of \<open>Stop\<close> on a new server returns as well. Where the registered function panics,
  the step of its goroutine leaves it unwinding and the next one ends the process.
\<close>

theorem Stop_launches_and_waits_witness:
  "pcs (run example_world new_Server example_launch) 1 = Wait
   \<and> map fst (branches (run example_world new_Server example_launch)) =
       [Drain (Ctx 1 False), Part 7 (Ctx 1 False)]
   \<and> execs (run example_world new_Server example_launch) = [1]
   \<and> \<not> crashed (run example_world new_Server example_launch)
   \<and> pcs (run example_world (run example_world new_Server example_launch)
        (map RunBranch [0..<2] @ [RunCaller 1, RunCaller 1])) 1 = Returned
   \<and> mutex new_Server = None \<and> \<not> once_done new_Server \<and> pcs new_Server 2 = Start
   \<and> prog example_world 2 = StopCall (Ctx 2 False)
   \<and> pcs (run example_world new_Server (stop_schedule 2 0)) 2 = Returned
   \<and> branches (run example_world new_Server example_launch) ! 1 = (Part 7 (Ctx 1 False), Running)
   \<and> fn_run example_world 7 (Ctx 1 False) = Returns
   \<and> trace (step example_world (run example_world new_Server example_launch) (RunBranch 1)) =
       [Closed, Invoke 7 (Ctx 1 False)]
   \<and> branches (step example_world (run example_world new_Server example_launch) (RunBranch 1)) ! 1 =
       (Part 7 (Ctx 1 False), Finished)
   \<and> branches (run panic_world new_Server example_launch) ! 1 = (Part 7 (Ctx 1 False), Running)
   \<and> fn_run panic_world 7 (Ctx 1 False) = Panics
   \<and> branches (step panic_world (run panic_world new_Server example_launch) (RunBranch 1)) ! 1 =
       (Part 7 (Ctx 1 False), Unwinding)
   \<and> crashed (run panic_world (run panic_world new_Server example_launch) [RunBranch 1, RunBranch 1])
   \<and> stop_like (prog example_world 1)
   \<and> pcs (run example_world new_Server example_done) 1 = Returned
   \<and> Invoke 7 (Ctx 1 False) \<in> set (trace (run example_world new_Server example_done))"
proof -
  let ?s = "run example_world new_Server example_launch"
  let ?p = "run panic_world new_Server example_launch"
  let ?d = "run example_world new_Server example_done"
  have bs: "branches ?s = [(Drain (Ctx 1 False), Running), (Part 7 (Ctx 1 False), Running)]"
    by (simp add: step_simps example_world_def example_launch_def)
  have w: "pcs ?s 1 = Wait" "shutdownFuncs ?s = [7]" "trace ?s = [Closed]" "\<not> crashed ?s"
    by (simp_all add: step_simps example_world_def example_launch_def)
  have p: "stop_ctx (prog example_world 1) = Ctx 1 False" "stop_like (prog example_world 1)"
    "fn_run example_world 7 (Ctx 1 False) = Returns"
    by (simp_all add: example_world_def)
  have r: "\<forall>b \<in> set (branches ?s). snd (run_branch example_world (fst b)) = Returns"
    by (simp add: bs) (simp add: example_world_def drain_body_def)
  have l: "length (branches ?s) = 2" "branches ?s ! 1 = (Part 7 (Ctx 1 False), Running)"
    by (simp_all add: bs)
  from Stop_launches_and_waits [OF refl, of example_world example_launch] w p r l
  have first: "map fst (branches ?s) = [Drain (Ctx 1 False), Part 7 (Ctx 1 False)]
    \<and> execs ?s = [1]
    \<and> pcs (run example_world ?s (map RunBranch [0..<2] @ [RunCaller 1, RunCaller 1])) 1 = Returned
    \<and> trace (step example_world ?s (RunBranch 1)) = [Closed, Invoke 7 (Ctx 1 False)]
    \<and> branches (step example_world ?s (RunBranch 1)) ! 1 = (Part 7 (Ctx 1 False), Finished)"
    by (auto simp: spawned_def)
  have n: "mutex new_Server = None" "\<not> once_done new_Server" "pcs new_Server 2 = Start"
    "shutdownFuncs new_Server = []"
    by (simp_all add: new_Server_def)
  have q: "prog example_world 2 = StopCall (Ctx 2 False)"
    "snd (run_branch example_world (Drain (Ctx 2 False))) = Returns"
    by (simp_all add: example_world_def drain_body_def)
  have e: "new_Server = run example_world new_Server []" by (simp add: run_def)
  from Stop_launches_and_waits [OF e] n q
  have second: "pcs (run example_world new_Server (stop_schedule 2 0)) 2 = Returned"
    by fastforce
  have pw: "\<not> crashed ?p" "length (branches ?p) = 2"
    "branches ?p ! 1 = (Part 7 (Ctx 1 False), Running)"
    by (simp_all add: step_simps panic_world_def example_launch_def)
  have pf: "fn_run panic_world 7 (Ctx 1 False) = Panics" by (simp add: panic_world_def)
  from Stop_launches_and_waits [OF refl, of panic_world example_launch] pw pf
  have third: "branches (step panic_world ?p (RunBranch 1)) ! 1 = (Part 7 (Ctx 1 False), Unwinding)
    \<and> crashed (run panic_world ?p [RunBranch 1, RunBranch 1])"
    by (metis one_less_numeral_iff semiring_norm(76))
  have dn: "pcs ?d 1 = Returned" "(Part 7 (Ctx 1 False), Finished) \<in> set (branches ?d)"
    by (simp_all add: step_simps example_world_def example_done_def example_launch_def)
  from Stop_launches_and_waits [OF refl, of example_world example_done] p(2) dn
  have fourth: "Invoke 7 (Ctx 1 False) \<in> set (trace ?d)" by blast
  from first second third fourth w n q l p pw pf dn show ?thesis by simp
qed

section \<open>A registered function that panics\<close>

text \<open>
  C2 as stated fails: with one registered function that panics, the panic ends the
  process while the caller of \<open>Stop\<close> still waits and the drain is still running; no
  further step changes that state, so \<open>Stop\<close> does not return and the drain does not
  complete.
\<close>

theorem Stop_participant_panic_counterexample:
  "crashed (run panic_world new_Server panic_schedule)
   \<and> pcs (run panic_world new_Server panic_schedule) 1 = Wait
   \<and> branches (run panic_world new_Server panic_schedule) =
       [(Drain (Ctx 1 False), Running), (Part 7 (Ctx 1 False), Unwinding)]
   \<and> run panic_world new_Server (panic_schedule @ [RunBranch 0, RunCaller 1, RunCaller 1]) =
       run panic_world new_Server panic_schedule"
proof -
  let ?s = "run panic_world new_Server panic_schedule"
  have c: "crashed ?s" "pcs ?s 1 = Wait"
    "branches ?s = [(Drain (Ctx 1 False), Running), (Part 7 (Ctx 1 False), Unwinding)]"
    by (simp_all add: step_simps panic_world_def panic_schedule_def example_launch_def)
  from c(1) have "run panic_world ?s [RunBranch 0, RunCaller 1, RunCaller 1] = ?s"
    by (rule run_crashed)
  with c show ?thesis by (simp add: run_append)
qed

section \<open>Escalation of the drain\<close>

text \<open>
  C3. When the drain goroutine of a running shutdown takes its step: if the graceful
  \<open>Shutdown\<close> returns no error, nothing else is called; if it returns an error, the debug
  message is logged and \<open>Close\<close> is called at once; if \<open>Close\<close> fails too, the failure is
  logged at \<open>CriticalSeverity\<close>, the highest severity, and the goroutine panics with that
  error, which ends the process at its next step. Nothing else is attempted.
\<close>

theorem Stop_drain_escalation:
  "s = run w new_Server sched \<Longrightarrow> \<not> crashed s \<Longrightarrow> j < length (branches s) \<Longrightarrow>
   branches s ! j = (Drain c, Running) \<Longrightarrow>
     (srv_Shutdown w c = None \<longrightarrow> trace (step w s (RunBranch j)) = trace s @ [SrvShutdown c])
   \<and> (srv_Shutdown w c \<noteq> None \<and> srv_Close w = None \<longrightarrow>
        trace (step w s (RunBranch j)) =
          trace s @ [SrvShutdown c, Log DebugSeverity None, SrvClose]
        \<and> branches (step w s (RunBranch j)) ! j = (Drain c, Finished))
   \<and> (\<forall>err. srv_Shutdown w c \<noteq> None \<and> srv_Close w = Some err \<longrightarrow>
        trace (step w s (RunBranch j)) =
          trace s @ [SrvShutdown c, Log DebugSeverity None, SrvClose,
                     Log CriticalSeverity (Some err), Panic err]
        \<and> branches (step w s (RunBranch j)) ! j = (Drain c, Unwinding)
        \<and> crashed (run w s [RunBranch j, RunBranch j]))
   \<and> (\<forall>sv. severity_rank sv \<le> severity_rank CriticalSeverity)"
proof -
  assume s: "s = run w new_Server sched" and nc: "\<not> crashed s"
    and j: "j < length (branches s)" and b: "branches s ! j = (Drain c, Running)"
  from s have i: "server_inv w s" by (simp add: inv_reachable)
  from j b have "0 < running (branches s)" by (intro running_pos [of j]) simp_all
  with i have wgpos: "wg s \<noteq> 0" by (simp add: server_inv_def)
  have sv: "severity_rank sv \<le> severity_rank CriticalSeverity" for sv
    by (cases sv) simp_all
  from nc j b wgpos sv show ?thesis
    by (auto simp: branch_step_def drain_body_def run_def)
qed

text \<open>
  In the example the context is already done, \<open>Shutdown\<close> and \<open>Close\<close> both fail, and the
  process ends.
\<close>

theorem Stop_drain_escalation_witness:
  "\<not> crashed (run escalation_world new_Server escalation_schedule)
   \<and> branches (run escalation_world new_Server escalation_schedule) ! 0 = (Drain (Ctx 1 True), Running)
   \<and> srv_Shutdown escalation_world (Ctx 1 True) \<noteq> None
   \<and> srv_Close escalation_world = Some (OtherError 2)
   \<and> trace (step escalation_world (run escalation_world new_Server escalation_schedule) (RunBranch 0)) =
       [Closed, SrvShutdown (Ctx 1 True), Log DebugSeverity None, SrvClose,
        Log CriticalSeverity (Some (OtherError 2)), Panic (OtherError 2)]
   \<and> crashed (run escalation_world (run escalation_world new_Server escalation_schedule)
        [RunBranch 0, RunBranch 0])"
proof -
  let ?s = "run escalation_world new_Server escalation_schedule"
  have a: "\<not> crashed ?s" "0 < length (branches ?s)"
    "branches ?s ! 0 = (Drain (Ctx 1 True), Running)" "trace ?s = [Closed]"
    by (simp_all add: step_simps escalation_world_def escalation_schedule_def)
  have e: "srv_Shutdown escalation_world (Ctx 1 True) \<noteq> None"
    "srv_Close escalation_world = Some (OtherError 2)"
    by (simp_all add: escalation_world_def)
  from Stop_drain_escalation [OF refl a(1) a(2) a(3)] a e show ?thesis by simp
qed

section \<open>A fatal error of the accept loop\<close>

text \<open>
  C4 as stated fails: a fatal error of the accept loop does not make the shutdown
  forceful. In the first run a call of \<open>Stop\<close> with a live context holds the mutex when
  the accept loop fails: the serve goroutine logs the error, waits for the mutex, finds
  the once done and returns; the shutdown that ran is the graceful one of the other
  call, with its live context, and \<open>Close\<close> is never called. In the second run the serve
  goroutine runs the shutdown itself, on a server with nothing to drain: \<open>Shutdown\<close>
  returns no error on the cancelled context, and \<open>Close\<close> is never called.
\<close>

theorem Serve_fatal_error_graceful_counterexample:
  "prog graceful_world 1 = ServeLoop (Some (OtherError 3))
   \<and> fatal_serve_error (Some (OtherError 3))
   \<and> prog graceful_world 0 = StopCall (Ctx 1 False)
   \<and> pcs (run graceful_world new_Server graceful_schedule) 0 = Returned
   \<and> pcs (run graceful_world new_Server graceful_schedule) 1 = Returned
   \<and> execs (run graceful_world new_Server graceful_schedule) = [0]
   \<and> branches (run graceful_world new_Server graceful_schedule) = [(Drain (Ctx 1 False), Finished)]
   \<and> trace (run graceful_world new_Server graceful_schedule) =
       [Closed, Log ErrorSeverity (Some (OtherError 3)), SrvShutdown (Ctx 1 False)]
   \<and> \<not> crashed (run graceful_world new_Server graceful_schedule)
   \<and> prog idle_world 0 = ServeLoop (Some (OtherError 3))
   \<and> pcs (run idle_world new_Server (serve_stop_schedule 0 0)) 0 = Returned
   \<and> execs (run idle_world new_Server (serve_stop_schedule 0 0)) = [0]
   \<and> branches (run idle_world new_Server (serve_stop_schedule 0 0)) = [(Drain canceled_ctx, Finished)]
   \<and> trace (run idle_world new_Server (serve_stop_schedule 0 0)) =
       [Log ErrorSeverity (Some (OtherError 3)), Closed, SrvShutdown canceled_ctx]
   \<and> \<not> crashed (run idle_world new_Server (serve_stop_schedule 0 0))"
  by (simp add: serve_stop_schedule_0 step_simps graceful_world_def graceful_schedule_def
      idle_world_def canceled_ctx_def)

text \<open>
  C4, as the code has it. \<open>Serve\<close> and \<open>ServeTLS\<close> return the new server and no error. For
  the goroutine they start, whose accept loop has ended with \<open>err\<close>: an error is fatal
  exactly when it is neither nil nor \<open>ErrServerClosed\<close>; on a fatal error the goroutine
  logs it and goes on into \<open>Stop\<close>; on any other result it ends without ever entering
  \<open>Stop\<close>. The context it passes to \<open>Stop\<close> is already done. Every goroutine of a shutdown
  carries the context of the call that runs it: the cancelled one when that call is the
  one of the serve goroutine. In that case the step of the drain calls \<open>Shutdown\<close> with
  the cancelled context and ends there when \<open>Shutdown\<close> returns no error; it goes on to
  \<open>Close\<close> when \<open>Shutdown\<close> returns an error, and a failing \<open>Close\<close> ends the process; and
  once the serve goroutine has returned from the shutdown it ran, \<open>Shutdown\<close> has been
  called with the cancelled context, and \<open>Close\<close> too if \<open>Shutdown\<close> returns an error on
  it. A serve goroutine that finds the mutex free and the once not done returns from
  \<open>Stop\<close>, having run the shutdown, under the schedule that lets it run alone, when the
  drain and the registered functions return. One that finds the once done returns in
  three steps and leaves the events, the goroutines and the caller that ran the shutdown
  as they are.
\<close>

theorem Serve_fatal_error_forces_Stop:
  "s = run w new_Server sched \<Longrightarrow> prog w t = ServeLoop err \<Longrightarrow>
     snd (Serve HttpHandler self svc l :: ('l, 'h, 'p) Server \<times> error option) = None
   \<and> snd (ServeTLS HttpHandler self svc l certFile keyFile cfg
          :: ('l, 'h, 'p) Server \<times> error option) = None
   \<and> Server_sync (fst (Serve HttpHandler self svc l
          :: ('l, 'h, 'p) Server \<times> error option)) = new_Server
   \<and> Server_sync (fst (ServeTLS HttpHandler self svc l certFile keyFile cfg
          :: ('l, 'h, 'p) Server \<times> error option)) = new_Server
   \<and> (fatal_serve_error err \<longleftrightarrow> err \<noteq> None \<and> err \<noteq> Some ErrServerClosed)
   \<and> (fatal_serve_error err \<and> \<not> crashed s \<and> pcs s t = Start \<longrightarrow>
        step w s (RunCaller t) =
          s\<lparr>trace := trace s @ [Log ErrorSeverity err], pcs := (pcs s)(t := StopLock)\<rparr>)
   \<and> (\<not> fatal_serve_error err \<longrightarrow>
        \<not> on_stop_path (pcs s t) \<and> t \<notin> set (execs s)
        \<and> (\<not> crashed s \<and> pcs s t = Start \<longrightarrow>
             step w s (RunCaller t) = s\<lparr>pcs := (pcs s)(t := Returned)\<rparr>))
   \<and> ctx_done (stop_ctx (prog w t))
   \<and> (t \<in> set (execs s) \<longrightarrow> (\<forall>b \<in> set (branches s). branch_ctx (fst b) = canceled_ctx))
   \<and> (\<forall>u b. u \<in> set (execs s) \<and> b \<in> set (branches s) \<longrightarrow>
        branch_ctx (fst b) = stop_ctx (prog w u))
   \<and> (\<forall>j c. t \<in> set (execs s) \<and> \<not> crashed s \<and> j < length (branches s)
          \<and> branches s ! j = (Drain c, Running) \<longrightarrow>
        c = canceled_ctx
        \<and> (srv_Shutdown w canceled_ctx = None \<longrightarrow>
             trace (step w s (RunBranch j)) = trace s @ [SrvShutdown canceled_ctx]
             \<and> branches (step w s (RunBranch j)) ! j = (Drain canceled_ctx, Finished))
        \<and> (srv_Shutdown w canceled_ctx \<noteq> None \<and> srv_Close w = None \<longrightarrow>
             trace (step w s (RunBranch j)) =
               trace s @ [SrvShutdown canceled_ctx, Log DebugSeverity None, SrvClose]
             \<and> branches (step w s (RunBranch j)) ! j = (Drain canceled_ctx, Finished))
        \<and> (\<forall>e. srv_Shutdown w canceled_ctx \<noteq> None \<and> srv_Close w = Some e \<longrightarrow>
             trace (step w s (RunBranch j)) =
               trace s @ [SrvShutdown canceled_ctx, Log DebugSeverity None, SrvClose,
                          Log CriticalSeverity (Some e), Panic e]
             \<and> branches (step w s (RunBranch j)) ! j = (Drain canceled_ctx, Unwinding)
             \<and> crashed (run w s [RunBranch j, RunBranch j])))
   \<and> (t \<in> set (execs s) \<and> pcs s t = Returned \<longrightarrow>
        SrvShutdown canceled_ctx \<in> set (trace s)
        \<and> (srv_Shutdown w canceled_ctx \<noteq> None \<longrightarrow> SrvClose \<in> set (trace s)))
   \<and> (fatal_serve_error err \<and> mutex s = None \<and> \<not> once_done s \<and> pcs s t = Start
          \<and> (\<forall>f \<in> set (shutdownFuncs s). fn_run w f canceled_ctx = Returns)
          \<and> snd (run_branch w (Drain canceled_ctx)) = Returns \<longrightarrow>
        pcs (run w s (serve_stop_schedule t (length (shutdownFuncs s)))) t = Returned
        \<and> t \<in> set (execs (run w s (serve_stop_schedule t (length (shutdownFuncs s))))))
   \<and> (\<not> crashed s \<and> mutex s = None \<and> once_done s \<and> pcs s t = StopLock \<longrightarrow>
        pcs (run w s [RunCaller t, RunCaller t, RunCaller t]) t = Returned
        \<and> trace (run w s [RunCaller t, RunCaller t, RunCaller t]) = trace s
        \<and> branches (run w s [RunCaller t, RunCaller t, RunCaller t]) = branches s
        \<and> execs (run w s [RunCaller t, RunCaller t, RunCaller t]) = execs s)"
proof -
  assume s: "s = run w new_Server sched" and p: "prog w t = ServeLoop err"
  from s have i: "server_inv w s" and x: "ctx_inv w s" and ci: "crash_inv w s"
    and tr: "trace_inv w s"
    by (simp_all add: inv_reachable ctx_inv_reachable crash_inv_reachable trace_inv_reachable)
  from i p have a: "\<not> fatal_serve_error err \<longrightarrow> \<not> on_stop_path (pcs s t) \<and> t \<notin> set (execs s)"
    by (auto simp: server_inv_def)
  from x have b: "\<forall>u b. u \<in> set (execs s) \<and> b \<in> set (branches s) \<longrightarrow>
        branch_ctx (fst b) = stop_ctx (prog w u)"
    by (auto simp: ctx_inv_def)
  from b p have b': "t \<in> set (execs s) \<longrightarrow> (\<forall>b \<in> set (branches s). branch_ctx (fst b) = canceled_ctx)"
    by fastforce
  have c: "c = canceled_ctx
        \<and> (srv_Shutdown w canceled_ctx = None \<longrightarrow>
             trace (step w s (RunBranch j)) = trace s @ [SrvShutdown canceled_ctx]
             \<and> branches (step w s (RunBranch j)) ! j = (Drain canceled_ctx, Finished))
        \<and> (srv_Shutdown w canceled_ctx \<noteq> None \<and> srv_Close w = None \<longrightarrow>
             trace (step w s (RunBranch j)) =
               trace s @ [SrvShutdown canceled_ctx, Log DebugSeverity None, SrvClose]
             \<and> branches (step w s (RunBranch j)) ! j = (Drain canceled_ctx, Finished))
        \<and> (\<forall>e. srv_Shutdown w canceled_ctx \<noteq> None \<and> srv_Close w = Some e \<longrightarrow>
             trace (step w s (RunBranch j)) =
               trace s @ [SrvShutdown canceled_ctx, Log DebugSeverity None, SrvClose,
                          Log CriticalSeverity (Some e), Panic e]
             \<and> branches (step w s (RunBranch j)) ! j = (Drain canceled_ctx, Unwinding)
             \<and> crashed (run w s [RunBranch j, RunBranch j]))"
    if h: "t \<in> set (execs s) \<and> \<not> crashed s \<and> j < length (branches s)
          \<and> branches s ! j = (Drain c, Running)" for j c
  proof -
    from h have "(Drain c, Running) \<in> set (branches s)" by (metis nth_mem)
    with b' h have cc: "c = canceled_ctx" by fastforce
    from h have "0 < running (branches s)" by (intro running_pos [of j]) simp_all
    with i have "wg s \<noteq> 0" by (simp add: server_inv_def)
    with h cc show ?thesis by (auto simp: branch_step_def drain_body_def run_def)
  qed
  have d: "SrvShutdown canceled_ctx \<in> set (trace s)
        \<and> (srv_Shutdown w canceled_ctx \<noteq> None \<longrightarrow> SrvClose \<in> set (trace s))"
    if h: "t \<in> set (execs s) \<and> pcs s t = Returned"
  proof -
    from h a have "stop_like (prog w t)" using p by auto
    with i h have "once_done s" by (auto simp: server_inv_def)
    from returned_drain_in_trace [OF i x tr _ this, of t] h p show ?thesis by simp
  qed
  have e: "pcs (run w s (serve_stop_schedule t (length (shutdownFuncs s)))) t = Returned
        \<and> t \<in> set (execs (run w s (serve_stop_schedule t (length (shutdownFuncs s)))))"
    if h: "fatal_serve_error err \<and> mutex s = None \<and> \<not> once_done s \<and> pcs s t = Start
          \<and> (\<forall>f \<in> set (shutdownFuncs s). fn_run w f canceled_ctx = Returns)
          \<and> snd (run_branch w (Drain canceled_ctx)) = Returns"
  proof -
    from i h have "branches s = []" by (auto simp: server_inv_def view_def)
    with ci have nc: "\<not> crashed s" by (auto simp: crash_inv_def)
    from h serve_completes [OF i ci nc _ _ _ p, of] show ?thesis by simp
  qed
  have f: "pcs (run w s [RunCaller t, RunCaller t, RunCaller t]) t = Returned
        \<and> trace (run w s [RunCaller t, RunCaller t, RunCaller t]) = trace s
        \<and> branches (run w s [RunCaller t, RunCaller t, RunCaller t]) = branches s
        \<and> execs (run w s [RunCaller t, RunCaller t, RunCaller t]) = execs s"
    if "\<not> crashed s \<and> mutex s = None \<and> once_done s \<and> pcs s t = StopLock"
    using that serve_after_done [of s t w] by simp
  have g: "snd (Serve HttpHandler self svc l :: ('l, 'h, 'p) Server \<times> error option) = None
   \<and> snd (ServeTLS HttpHandler self svc l certFile keyFile cfg
          :: ('l, 'h, 'p) Server \<times> error option) = None
   \<and> Server_sync (fst (Serve HttpHandler self svc l
          :: ('l, 'h, 'p) Server \<times> error option)) = new_Server
   \<and> Server_sync (fst (ServeTLS HttpHandler self svc l certFile keyFile cfg
          :: ('l, 'h, 'p) Server \<times> error option)) = new_Server
   \<and> (fatal_serve_error err \<longleftrightarrow> err \<noteq> None \<and> err \<noteq> Some ErrServerClosed)
   \<and> (fatal_serve_error err \<and> \<not> crashed s \<and> pcs s t = Start \<longrightarrow>
        step w s (RunCaller t) =
          s\<lparr>trace := trace s @ [Log ErrorSeverity err], pcs := (pcs s)(t := StopLock)\<rparr>)
   \<and> (\<not> fatal_serve_error err \<longrightarrow>
        \<not> on_stop_path (pcs s t) \<and> t \<notin> set (execs s)
        \<and> (\<not> crashed s \<and> pcs s t = Start \<longrightarrow>
             step w s (RunCaller t) = s\<lparr>pcs := (pcs s)(t := Returned)\<rparr>))
   \<and> ctx_done (stop_ctx (prog w t))"
    using a p
    by (simp add: Serve_def ServeTLS_def fatal_serve_error_def thread_step_def goto_def
        canceled_ctx_def)
  from g b b' c d e f show ?thesis by blast
qed

text \<open>
  In the example the accept loop fails with an error of its own and \<open>Shutdown\<close> fails on
  a context that is done: the goroutine logs the error, enters \<open>Stop\<close>, runs the shutdown
  and starts the drain with the cancelled context; the drain calls \<open>Shutdown\<close>, then
  \<open>Close\<close>; run alone, the goroutine returns. Where another call has run the shutdown,
  the goroutine returns and adds no event.
\<close>

theorem Serve_fatal_error_forces_Stop_witness:
  "prog serve_world 0 = ServeLoop (Some (OtherError 3))
   \<and> fatal_serve_error (Some (OtherError 3))
   \<and> pcs (step serve_world new_Server (RunCaller 0)) 0 = StopLock
   \<and> trace (step serve_world new_Server (RunCaller 0)) = [Log ErrorSeverity (Some (OtherError 3))]
   \<and> ctx_done canceled_ctx
   \<and> execs (run serve_world new_Server serve_schedule) = [0]
   \<and> \<not> crashed (run serve_world new_Server serve_schedule)
   \<and> branches (run serve_world new_Server serve_schedule) ! 0 = (Drain canceled_ctx, Running)
   \<and> srv_Shutdown serve_world canceled_ctx \<noteq> None \<and> srv_Close serve_world = None
   \<and> trace (step serve_world (run serve_world new_Server serve_schedule) (RunBranch 0)) =
        [Log ErrorSeverity (Some (OtherError 3)), Closed,
         SrvShutdown canceled_ctx, Log DebugSeverity None, SrvClose]
   \<and> branches (step serve_world (run serve_world new_Server serve_schedule) (RunBranch 0)) ! 0 =
        (Drain canceled_ctx, Finished)
   \<and> mutex new_Server = None \<and> \<not> once_done new_Server \<and> pcs new_Server 0 = Start
   \<and> snd (run_branch serve_world (Drain canceled_ctx)) = Returns
   \<and> pcs (run serve_world new_Server (serve_stop_schedule 0 0)) 0 = Returned
   \<and> 0 \<in> set (execs (run serve_world new_Server (serve_stop_schedule 0 0)))
   \<and> SrvShutdown canceled_ctx \<in> set (trace (run serve_world new_Server (serve_stop_schedule 0 0)))
   \<and> SrvClose \<in> set (trace (run serve_world new_Server (serve_stop_schedule 0 0)))
   \<and> prog graceful_world 1 = ServeLoop (Some (OtherError 3))
   \<and> \<not> crashed (run graceful_world new_Server (take 10 graceful_schedule))
   \<and> mutex (run graceful_world new_Server (take 10 graceful_schedule)) = None
   \<and> once_done (run graceful_world new_Server (take 10 graceful_schedule))
   \<and> pcs (run graceful_world new_Server (take 10 graceful_schedule)) 1 = StopLock
   \<and> pcs (run graceful_world (run graceful_world new_Server (take 10 graceful_schedule))
        [RunCaller 1, RunCaller 1, RunCaller 1]) 1 = Returned
   \<and> trace (run graceful_world (run graceful_world new_Server (take 10 graceful_schedule))
        [RunCaller 1, RunCaller 1, RunCaller 1]) =
       [Closed, Log ErrorSeverity (Some (OtherError 3)), SrvShutdown (Ctx 1 False)]"
proof -
  let ?u = "run serve_world new_Server serve_schedule"
  let ?v = "run serve_world new_Server (serve_stop_schedule 0 0)"
  let ?g = "run graceful_world new_Server (take 10 graceful_schedule)"
  have p: "prog serve_world 0 = ServeLoop (Some (OtherError 3))"
    by (simp add: serve_world_def)
  have f: "fatal_serve_error (Some (OtherError 3))"
    by (simp add: fatal_serve_error_def)
  have n: "\<not> crashed new_Server" "pcs new_Server 0 = Start" "trace new_Server = []"
    "mutex new_Server = None" "\<not> once_done new_Server" "shutdownFuncs new_Server = []"
    by (simp_all add: new_Server_def)
  have d: "srv_Shutdown serve_world canceled_ctx \<noteq> None" "srv_Close serve_world = None"
    "snd (run_branch serve_world (Drain canceled_ctx)) = Returns"
    by (simp_all add: serve_world_def canceled_ctx_def drain_body_def)
  have r: "new_Server = run serve_world new_Server []" by (simp add: run_def)
  from Serve_fatal_error_forces_Stop [OF r p, where 'p = unit and HttpHandler = "\<lambda>svc. ()"
      and self = "()" and svc = "\<lambda>(q :: unit Request) (e :: unit). ((), e)" and l = "()"
      and certFile = "[]" and keyFile = "[]" and cfg = None] p f n d
  have first: "pcs (step serve_world new_Server (RunCaller 0)) 0 = StopLock
    \<and> trace (step serve_world new_Server (RunCaller 0)) = [Log ErrorSeverity (Some (OtherError 3))]
    \<and> ctx_done canceled_ctx
    \<and> pcs ?v 0 = Returned \<and> 0 \<in> set (execs ?v)"
    by (simp add: canceled_ctx_def)
  have e: "execs ?u = [0]" "\<not> crashed ?u" "length (branches ?u) = 1"
    "branches ?u ! 0 = (Drain canceled_ctx, Running)"
    "trace ?u = [Log ErrorSeverity (Some (OtherError 3)), Closed]"
    by (simp_all add: step_simps serve_world_def serve_schedule_def canceled_ctx_def)
  from Serve_fatal_error_forces_Stop [OF refl p, where sched = serve_schedule and 'p = unit
      and HttpHandler = "\<lambda>svc. ()" and self = "()"
      and svc = "\<lambda>(q :: unit Request) (e :: unit). ((), e)" and l = "()"
      and certFile = "[]" and keyFile = "[]" and cfg = None] e d
  have second: "trace (step serve_world ?u (RunBranch 0)) =
        [Log ErrorSeverity (Some (OtherError 3)), Closed,
         SrvShutdown canceled_ctx, Log DebugSeverity None, SrvClose]
    \<and> branches (step serve_world ?u (RunBranch 0)) ! 0 = (Drain canceled_ctx, Finished)"
    by simp
  from first have v: "pcs ?v 0 = Returned" "0 \<in> set (execs ?v)" by simp_all
  from Serve_fatal_error_forces_Stop [OF refl p, where sched = "serve_stop_schedule 0 0"
      and 'p = unit and HttpHandler = "\<lambda>svc. ()" and self = "()"
      and svc = "\<lambda>(q :: unit Request) (e :: unit). ((), e)" and l = "()"
      and certFile = "[]" and keyFile = "[]" and cfg = None] v d
  have third: "SrvShutdown canceled_ctx \<in> set (trace ?v) \<and> SrvClose \<in> set (trace ?v)"
    by simp
  have q: "prog graceful_world 1 = ServeLoop (Some (OtherError 3))"
    by (simp add: graceful_world_def)
  have gs: "\<not> crashed ?g" "mutex ?g = None" "once_done ?g" "pcs ?g 1 = StopLock"
    "trace ?g = [Closed, Log ErrorSeverity (Some (OtherError 3)), SrvShutdown (Ctx 1 False)]"
    by (simp_all add: step_simps graceful_world_def graceful_schedule_def)
  from Serve_fatal_error_forces_Stop [OF refl q, where sched = "take 10 graceful_schedule"
      and 'p = unit and HttpHandler = "\<lambda>svc. ()" and self = "()"
      and svc = "\<lambda>(q :: unit Request) (e :: unit). ((), e)" and l = "()"
      and certFile = "[]" and keyFile = "[]" and cfg = None] gs
  have fourth: "pcs (run graceful_world ?g [RunCaller 1, RunCaller 1, RunCaller 1]) 1 = Returned
    \<and> trace (run graceful_world ?g [RunCaller 1, RunCaller 1, RunCaller 1]) =
       [Closed, Log ErrorSeverity (Some (OtherError 3)), SrvShutdown (Ctx 1 False)]"
    by simp
  from first second third fourth p f n d e q gs show ?thesis by simp
qed

section \<open>Registering a shutdown function\<close>




end
